theory Spec2Isabelle
  imports Main "HOL-Library.Monad_Syntax"
begin

section \<open>The HTTP cache coordination core (net/http/http_cache.cc)\<close>

text \<open>
  A shallow embedding of \<^verbatim>\<open>HttpCache\<close>. Objects the C++ code reaches through pointers
  (\<^verbatim>\<open>ActiveEntry*\<close>, \<^verbatim>\<open>PendingOp*\<close>) live in explicit stores, addressed by natural
  numbers; \<^verbatim>\<open>NULL\<close> is \<open>None\<close>. Every operation takes the cache and returns the new cache.
  An operation returns \<open>None\<close> where the source dereferences a null or deleted pointer,
  erases an \<^verbatim>\<open>end()\<close> iterator, or fails one of its own \<^verbatim>\<open>DCHECK\<close>s. A member
  \<^verbatim>\<open>name_\<close> of the source is the field \<open>name\<close> here, and a \<^verbatim>\<open>Transaction* trans\<close> is \<open>tr\<close>.

  Transactions, the disk backend and the completion callbacks are external to the file.
  They are the fields of \<open>Env\<close>: a callback is a function from the cache to the cache, so
  that whatever a transaction does to the cache re-entrantly is part of the model.
\<close>

subsection \<open>Status codes and modes\<close>

text \<open>
  Modelled from the spec: the status codes of net/base/net_errors.h, which is not among the
  sources. The core only compares them; the values are those of an \<^verbatim>\<open>int\<close> enumeration
  with \<^verbatim>\<open>OK\<close> zero and every error negative.
\<close>

definition OK :: int where "OK = 0"
definition ERR_IO_PENDING :: int where "ERR_IO_PENDING = - 1"
definition ERR_FAILED :: int where "ERR_FAILED = - 2"
definition ERR_CACHE_CREATE_FAILURE :: int where "ERR_CACHE_CREATE_FAILURE = - 405"
definition ERR_CACHE_RACE :: int where "ERR_CACHE_RACE = - 406"

text \<open>
  Modelled from the spec: \<^verbatim>\<open>Transaction::Mode\<close> of net/http/http_cache_transaction.h, which
  is not among the sources. \<open>includes_WRITE m\<close> is the test \<^verbatim>\<open>m & Transaction::WRITE\<close>.
\<close>

datatype Mode = NONE | READ | WRITE | READ_WRITE

fun includes_WRITE :: "Mode \<Rightarrow> bool" where
  "includes_WRITE WRITE = True"
| "includes_WRITE READ_WRITE = True"
| "includes_WRITE _ = False"

subsection \<open>Data\<close>

datatype WorkItemOperation = WI_CREATE_BACKEND | WI_OPEN_ENTRY | WI_CREATE_ENTRY | WI_DOOM_ENTRY

text \<open>
  \<^verbatim>\<open>WorkItem\<close>: \<open>wi_trans\<close> is the owning transaction, \<open>wi_entry\<close> the address of the
  \<^verbatim>\<open>ActiveEntry*\<close> variable that receives the result, \<open>wi_callback\<close> the user callback and
  \<open>wi_backend\<close> the address of the \<^verbatim>\<open>Backend*\<close> variable that receives the backend.
\<close>

record WorkItem =
  wi_operation :: WorkItemOperation
  wi_trans :: "nat option"
  wi_entry :: "nat option"
  wi_callback :: "nat option"
  wi_backend :: "nat option"

record ActiveEntry =
  disk_entry :: "nat option"
  writer :: "nat option"
  readers :: "nat list"
  pending_queue :: "nat list"
  will_process_pending_queue :: bool
  doomed :: bool

record PendingOp =
  op_disk_entry :: "nat option"
  op_backend :: "nat option"
  op_writer :: "WorkItem option"
  op_callback :: "nat option"
  op_pending_queue :: "WorkItem list"

text \<open>The tasks the cache posts to the message loop.\<close>

datatype Task = OnProcessPendingQueueTask nat | OnBackendCreatedTask int nat

text \<open>The calls the cache makes on its collaborators, in order.\<close>

datatype Event =
    IoCallback nat int
  | UserCallback nat int
  | DiskDoom nat
  | DiskClose nat
  | AddTruncated nat

datatype CacheMode = NORMAL | RECORD | PLAYBACK | DISABLE

text \<open>
  \<^verbatim>\<open>HttpCache\<close>. The tables \<open>active_entries\<close> and \<open>pending_ops\<close> are \<^verbatim>\<open>std::map\<close>s from
  keys to pointers, kept as association lists with one pair per key; \<open>doomed_entries\<close> is a
  \<^verbatim>\<open>std::set\<close> of pointers, kept in increasing order as the set iterates. \<open>entries\<close> and
  \<open>ops\<close> are the stores of the objects, \<open>next_ptr\<close> the next address \<^verbatim>\<open>new\<close> returns,
  \<open>entry_out\<close> and \<open>backend_out\<close> the variables behind \<^verbatim>\<open>ActiveEntry**\<close> and
  \<^verbatim>\<open>Backend**\<close> parameters, \<open>tasks\<close> the message loop and \<open>log\<close> the calls made so far.
\<close>

record HttpCache =
  disk_cache :: "nat option"
  backend_factory :: "nat option"
  building_backend :: bool
  cache_mode :: CacheMode
  playback_cache_map :: "(string \<times> int) list option"
  active_entries :: "(string \<times> nat) list"
  doomed_entries :: "nat list"
  pending_ops :: "(string \<times> nat) list"
  entries :: "nat \<rightharpoonup> ActiveEntry"
  ops :: "nat \<rightharpoonup> PendingOp"
  next_ptr :: nat
  entry_out :: "nat \<rightharpoonup> nat option"
  backend_out :: "nat \<rightharpoonup> nat option"
  tasks :: "Task list"
  log :: "Event list"

text \<open>
  The collaborators. \<open>trans_mode\<close> and \<open>trans_key\<close> are \<^verbatim>\<open>trans->mode()\<close> and
  \<^verbatim>\<open>trans->key()\<close>; \<open>add_truncated_flag\<close> is the result of \<^verbatim>\<open>trans->AddTruncatedFlag()\<close>;
  \<open>io_callback\<close> is what \<^verbatim>\<open>trans->io_callback()->Run(result)\<close> does to the cache and
  \<open>user_callback\<close> what a user's completion callback does; \<open>get_key\<close> is
  \<^verbatim>\<open>disk_entry->GetKey()\<close>. The backend calls return the status and, when they complete at
  once, the entry (or backend) they produce. \<open>spec_for_request\<close> is
  \<^verbatim>\<open>HttpUtil::SpecForRequest\<close>, the canonical form of a URL.
\<close>

record Env =
  trans_mode :: "nat \<Rightarrow> Mode"
  trans_key :: "nat \<Rightarrow> string"
  add_truncated_flag :: "nat \<Rightarrow> bool"
  io_callback :: "nat \<Rightarrow> int \<Rightarrow> HttpCache \<Rightarrow> HttpCache"
  user_callback :: "nat \<Rightarrow> int \<Rightarrow> HttpCache \<Rightarrow> HttpCache"
  get_key :: "nat \<Rightarrow> string"
  backend_OpenEntry :: "string \<Rightarrow> int \<times> nat option"
  backend_CreateEntry :: "string \<Rightarrow> int \<times> nat option"
  backend_DoomEntry :: "string \<Rightarrow> int"
  factory_CreateBackend :: "nat \<Rightarrow> int \<times> nat option"
  spec_for_request :: "string \<Rightarrow> string"

subsection \<open>Helpers of the embedding\<close>

definition DCHECK :: "bool \<Rightarrow> unit option" where
  "DCHECK b = (if b then Some () else None)"

definition emit :: "Event \<Rightarrow> HttpCache \<Rightarrow> HttpCache" where
  "emit ev c = c\<lparr>log := log c @ [ev]\<rparr>"

definition store_entry :: "nat \<Rightarrow> ActiveEntry \<Rightarrow> HttpCache \<Rightarrow> HttpCache" where
  "store_entry entry e c = c\<lparr>entries := (entries c)(entry \<mapsto> e)\<rparr>"

definition store_op :: "nat \<Rightarrow> PendingOp \<Rightarrow> HttpCache \<Rightarrow> HttpCache" where
  "store_op p po c = c\<lparr>ops := (ops c)(p \<mapsto> po)\<rparr>"

definition PostTask :: "Task \<Rightarrow> HttpCache \<Rightarrow> HttpCache" where
  "PostTask t c = c\<lparr>tasks := tasks c @ [t]\<rparr>"

text \<open>
  \<^verbatim>\<open>callback->Run(result)\<close>: the call is logged, and then the callback does what it does
  to the cache. Whatever the callback makes the cache do re-entrantly is logged after the
  call, by the operations it runs.
\<close>

definition run_io_callback :: "Env \<Rightarrow> nat \<Rightarrow> int \<Rightarrow> HttpCache \<Rightarrow> HttpCache" where
  "run_io_callback env tr result c = io_callback env tr result (emit (IoCallback tr result) c)"

definition run_user_callback :: "Env \<Rightarrow> nat \<Rightarrow> int \<Rightarrow> HttpCache \<Rightarrow> HttpCache" where
  "run_user_callback env cb result c = user_callback env cb result (emit (UserCallback cb result) c)"

text \<open>\<^verbatim>\<open>std::map::erase\<close> of the pair of a key, and of the first pair holding a pointer.\<close>

definition erase_key :: "string \<Rightarrow> (string \<times> 'v) list \<Rightarrow> (string \<times> 'v) list" where
  "erase_key k m = filter (\<lambda>kv. fst kv \<noteq> k) m"

fun erase_ptr :: "nat \<Rightarrow> (string \<times> nat) list \<Rightarrow> (string \<times> nat) list" where
  "erase_ptr p [] = []"
| "erase_ptr p (kv # m) = (if snd kv = p then m else kv # erase_ptr p m)"

text \<open>\<^verbatim>\<open>m[key] = p\<close> on a \<^verbatim>\<open>std::map\<close>.\<close>

definition assign_key :: "string \<Rightarrow> 'v \<Rightarrow> (string \<times> 'v) list \<Rightarrow> (string \<times> 'v) list" where
  "assign_key k p m = erase_key k m @ [(k, p)]"

subsection \<open>Active entries\<close>

text \<open>\<^verbatim>\<open>ActiveEntry::ActiveEntry\<close>.\<close>

definition ActiveEntry_new :: "nat \<Rightarrow> ActiveEntry" where
  "ActiveEntry_new d =
     \<lparr>disk_entry = Some d, writer = None, readers = [], pending_queue = [],
      will_process_pending_queue = False, doomed = False\<rparr>"

text \<open>\<^verbatim>\<open>ActiveEntry::~ActiveEntry\<close> and \<^verbatim>\<open>delete entry\<close>.\<close>

definition delete_entry :: "nat \<Rightarrow> HttpCache \<Rightarrow> HttpCache option" where
  "delete_entry entry c = do {
     e \<leftarrow> entries c entry;
     let c1 = (case disk_entry e of None \<Rightarrow> c | Some d \<Rightarrow> emit (DiskClose d) c);
     Some (c1\<lparr>entries := (entries c1)(entry := None)\<rparr>)
   }"

definition FindActiveEntry :: "string \<Rightarrow> HttpCache \<Rightarrow> nat option" where
  "FindActiveEntry k c = map_of (active_entries c) k"

definition FinalizeDoomedEntry :: "nat \<Rightarrow> HttpCache \<Rightarrow> HttpCache option" where
  "FinalizeDoomedEntry entry c = do {
     e \<leftarrow> entries c entry;
     DCHECK (doomed e);
     DCHECK (writer e = None);
     DCHECK (readers e = []);
     DCHECK (pending_queue e = []);
     DCHECK (entry \<in> set (doomed_entries c));
     delete_entry entry (c\<lparr>doomed_entries := removeAll entry (doomed_entries c)\<rparr>)
   }"

text \<open>\<^verbatim>\<open>SlowDeactivateEntry\<close>: the first pair of the table that holds the entry goes.\<close>

definition SlowDeactivateEntry :: "nat \<Rightarrow> HttpCache \<Rightarrow> HttpCache option" where
  "SlowDeactivateEntry entry c =
     (if entry \<in> snd ` set (active_entries c)
      then delete_entry entry (c\<lparr>active_entries := erase_ptr entry (active_entries c)\<rparr>)
      else Some c)"

definition DeactivateEntry :: "Env \<Rightarrow> nat \<Rightarrow> HttpCache \<Rightarrow> HttpCache option" where
  "DeactivateEntry env entry c = do {
     e \<leftarrow> entries c entry;
     DCHECK (\<not> will_process_pending_queue e);
     DCHECK (\<not> doomed e);
     DCHECK (writer e = None);
     d \<leftarrow> disk_entry e;
     DCHECK (readers e = []);
     DCHECK (pending_queue e = []);
     let k = get_key env d;
     if k = [] then SlowDeactivateEntry entry c
     else do {
       DCHECK (map_of (active_entries c) k = Some entry);
       delete_entry entry (c\<lparr>active_entries := erase_key k (active_entries c)\<rparr>)
     }
   }"

definition DestroyEntry :: "Env \<Rightarrow> nat \<Rightarrow> HttpCache \<Rightarrow> HttpCache option" where
  "DestroyEntry env entry c = do {
     e \<leftarrow> entries c entry;
     if doomed e then FinalizeDoomedEntry entry c else DeactivateEntry env entry c
   }"

text \<open>
  \<^verbatim>\<open>ProcessPendingQueue\<close>: one task per entry is posted; the flag is set until it runs.
\<close>

definition ProcessPendingQueue :: "nat \<Rightarrow> HttpCache \<Rightarrow> HttpCache option" where
  "ProcessPendingQueue entry c = do {
     e \<leftarrow> entries c entry;
     if will_process_pending_queue e then Some c
     else Some (PostTask (OnProcessPendingQueueTask entry)
                  (store_entry entry (e\<lparr>will_process_pending_queue := True\<rparr>) c))
   }"

definition AddTransactionToEntry ::
    "Env \<Rightarrow> nat \<Rightarrow> nat \<Rightarrow> HttpCache \<Rightarrow> (int \<times> HttpCache) option" where
  "AddTransactionToEntry env entry tr c = do {
     e \<leftarrow> entries c entry;
     DCHECK (disk_entry e \<noteq> None);
     if writer e \<noteq> None \<or> will_process_pending_queue e
     then Some (ERR_IO_PENDING,
                store_entry entry (e\<lparr>pending_queue := pending_queue e @ [tr]\<rparr>) c)
     else if includes_WRITE (trans_mode env tr) \<and> readers e \<noteq> []
     then Some (ERR_IO_PENDING,
                store_entry entry (e\<lparr>pending_queue := pending_queue e @ [tr]\<rparr>) c)
     else do {
       let e1 = (if includes_WRITE (trans_mode env tr)
                 then e\<lparr>writer := Some tr\<rparr>
                 else e\<lparr>readers := readers e @ [tr]\<rparr>);
       let c1 = store_entry entry e1 c;
       c2 \<leftarrow> (if writer e1 = None \<and> pending_queue e1 \<noteq> []
              then ProcessPendingQueue entry c1 else Some c1);
       Some (OK, c2)
     }
   }"

text \<open>
  \<^verbatim>\<open>DoneWritingToEntry\<close>. On failure the queue is swapped into a local list before the entry
  is destroyed, and the callbacks of the local list run last, in order.
\<close>

definition DoneWritingToEntry :: "Env \<Rightarrow> nat \<Rightarrow> bool \<Rightarrow> HttpCache \<Rightarrow> HttpCache option" where
  "DoneWritingToEntry env entry success c = do {
     e \<leftarrow> entries c entry;
     DCHECK (readers e = []);
     let e1 = e\<lparr>writer := None\<rparr>;
     if success then ProcessPendingQueue entry (store_entry entry e1 c)
     else do {
       DCHECK (\<not> will_process_pending_queue e1);
       let local_queue = pending_queue e1;
       let c1 = store_entry entry (e1\<lparr>pending_queue := []\<rparr>) c;
       d \<leftarrow> disk_entry e1;
       c2 \<leftarrow> DestroyEntry env entry (emit (DiskDoom d) c1);
       Some (fold (\<lambda>tr. run_io_callback env tr ERR_CACHE_RACE) local_queue c2)
     }
   }"

definition DoneReadingFromEntry :: "nat \<Rightarrow> nat \<Rightarrow> HttpCache \<Rightarrow> HttpCache option" where
  "DoneReadingFromEntry entry tr c = do {
     e \<leftarrow> entries c entry;
     DCHECK (writer e = None);
     DCHECK (tr \<in> set (readers e));
     ProcessPendingQueue entry (store_entry entry (e\<lparr>readers := remove1 tr (readers e)\<rparr>) c)
   }"

definition DoneWithEntry :: "Env \<Rightarrow> nat \<Rightarrow> nat \<Rightarrow> bool \<Rightarrow> HttpCache \<Rightarrow> HttpCache option" where
  "DoneWithEntry env entry tr cancel c = do {
     e \<leftarrow> entries c entry;
     if will_process_pending_queue e \<and> readers e = [] then Some c
     else if writer e \<noteq> None then do {
       DCHECK (writer e = Some tr);
       if cancel then do {
         DCHECK (disk_entry e \<noteq> None);
         DoneWritingToEntry env entry (add_truncated_flag env tr) (emit (AddTruncated tr) c)
       }
       else DoneWritingToEntry env entry False c
     }
     else DoneReadingFromEntry entry tr c
   }"

definition ConvertWriterToReader :: "Env \<Rightarrow> nat \<Rightarrow> HttpCache \<Rightarrow> HttpCache option" where
  "ConvertWriterToReader env entry c = do {
     e \<leftarrow> entries c entry;
     tr \<leftarrow> writer e;
     DCHECK (trans_mode env tr = READ_WRITE);
     DCHECK (readers e = []);
     ProcessPendingQueue entry
       (store_entry entry (e\<lparr>writer := None, readers := readers e @ [tr]\<rparr>) c)
   }"

text \<open>
  \<^verbatim>\<open>OnProcessPendingQueue\<close>, the task \<^verbatim>\<open>ProcessPendingQueue\<close> posts: the deferred
  queue-drain.
\<close>

definition OnProcessPendingQueue :: "Env \<Rightarrow> nat \<Rightarrow> HttpCache \<Rightarrow> HttpCache option" where
  "OnProcessPendingQueue env entry c = do {
     e0 \<leftarrow> entries c entry;
     let e = e0\<lparr>will_process_pending_queue := False\<rparr>;
     let c1 = store_entry entry e c;
     DCHECK (writer e = None);
     (case pending_queue e of
        [] \<Rightarrow> if readers e = [] then DestroyEntry env entry c1 else Some c1
      | next # rest \<Rightarrow>
          if includes_WRITE (trans_mode env next) \<and> readers e \<noteq> [] then Some c1
          else do {
            (rv, c2) \<leftarrow> AddTransactionToEntry env entry next
                          (store_entry entry (e\<lparr>pending_queue := rest\<rparr>) c1);
            Some (if rv \<noteq> ERR_IO_PENDING then run_io_callback env next rv c2 else c2)
          })
   }"

subsection \<open>Work items and pending operations\<close>

text \<open>The two constructors of \<^verbatim>\<open>WorkItem\<close> and the constructor of \<^verbatim>\<open>PendingOp\<close>.\<close>

definition WorkItem_entry :: "WorkItemOperation \<Rightarrow> nat option \<Rightarrow> nat option \<Rightarrow> WorkItem" where
  "WorkItem_entry opn tr entry =
     \<lparr>wi_operation = opn, wi_trans = tr, wi_entry = entry, wi_callback = None,
      wi_backend = None\<rparr>"

definition WorkItem_backend ::
    "WorkItemOperation \<Rightarrow> nat option \<Rightarrow> nat option \<Rightarrow> nat option \<Rightarrow> WorkItem" where
  "WorkItem_backend opn tr cb backend =
     \<lparr>wi_operation = opn, wi_trans = tr, wi_entry = None, wi_callback = cb,
      wi_backend = backend\<rparr>"

definition PendingOp_new :: PendingOp where
  "PendingOp_new =
     \<lparr>op_disk_entry = None, op_backend = None, op_writer = None, op_callback = None,
      op_pending_queue = []\<rparr>"

definition IsValid :: "WorkItem \<Rightarrow> bool" where
  "IsValid item = (wi_trans item \<noteq> None \<or> wi_entry item \<noteq> None \<or> wi_callback item \<noteq> None)"

text \<open>\<^verbatim>\<open>WorkItem::NotifyTransaction\<close>.\<close>

definition NotifyTransaction ::
    "Env \<Rightarrow> WorkItem \<Rightarrow> int \<Rightarrow> nat option \<Rightarrow> HttpCache \<Rightarrow> HttpCache option" where
  "NotifyTransaction env item result entry c = do {
     DCHECK (case entry of None \<Rightarrow> True
             | Some a \<Rightarrow> (case entries c a of None \<Rightarrow> False | Some e \<Rightarrow> disk_entry e \<noteq> None));
     let c1 = (case wi_entry item of None \<Rightarrow> c
               | Some slot \<Rightarrow> c\<lparr>entry_out := (entry_out c)(slot \<mapsto> entry)\<rparr>);
     Some (case wi_trans item of None \<Rightarrow> c1 | Some tr \<Rightarrow> run_io_callback env tr result c1)
   }"

text \<open>\<^verbatim>\<open>WorkItem::DoCallback\<close>: the flag tells whether the user callback was invoked.\<close>

definition DoCallback ::
    "Env \<Rightarrow> WorkItem \<Rightarrow> int \<Rightarrow> nat option \<Rightarrow> HttpCache \<Rightarrow> bool \<times> HttpCache" where
  "DoCallback env item result backend c =
     (let c1 = (case wi_backend item of None \<Rightarrow> c
                | Some slot \<Rightarrow> c\<lparr>backend_out := (backend_out c)(slot \<mapsto> backend)\<rparr>)
      in case wi_callback item of
           None \<Rightarrow> (False, c1)
         | Some cb \<Rightarrow> (True, run_user_callback env cb result c1))"

definition ActivateEntry :: "string \<Rightarrow> nat \<Rightarrow> HttpCache \<Rightarrow> (nat \<times> HttpCache) option" where
  "ActivateEntry k d c = do {
     DCHECK (FindActiveEntry k c = None);
     let entry = next_ptr c;
     Some (entry,
           c\<lparr>entries := (entries c)(entry \<mapsto> ActiveEntry_new d),
             active_entries := assign_key k entry (active_entries c),
             next_ptr := Suc entry\<rparr>)
   }"

definition GetPendingOp :: "string \<Rightarrow> HttpCache \<Rightarrow> (nat \<times> HttpCache) option" where
  "GetPendingOp k c = do {
     DCHECK (FindActiveEntry k c = None);
     (case map_of (pending_ops c) k of
        Some p \<Rightarrow> Some (p, c)
      | None \<Rightarrow>
          let p = next_ptr c in
          Some (p,
                c\<lparr>ops := (ops c)(p \<mapsto> PendingOp_new),
                  pending_ops := assign_key k p (pending_ops c),
                  next_ptr := Suc p\<rparr>))
   }"

text \<open>
  \<^verbatim>\<open>DeletePendingOp\<close>: the op is found by the key of its disk entry when it has one, and by
  searching the table for the pointer otherwise.
\<close>

definition DeletePendingOp :: "Env \<Rightarrow> nat \<Rightarrow> HttpCache \<Rightarrow> HttpCache option" where
  "DeletePendingOp env p c = do {
     po \<leftarrow> ops c p;
     let k = (case op_disk_entry po of None \<Rightarrow> [] | Some d \<Rightarrow> get_key env d);
     c1 \<leftarrow> (if k \<noteq> [] then do {
              DCHECK (map_of (pending_ops c) k \<noteq> None);
              Some (c\<lparr>pending_ops := erase_key k (pending_ops c)\<rparr>)
            }
            else Some (c\<lparr>pending_ops := erase_ptr p (pending_ops c)\<rparr>));
     DCHECK (op_pending_queue po = []);
     Some (c1\<lparr>ops := (ops c1)(p := None)\<rparr>)
   }"

text \<open>\<^verbatim>\<open>OnBackendCreated\<close>: one waiter of the backend-creation gate per task.\<close>

definition OnBackendCreated :: "Env \<Rightarrow> int \<Rightarrow> nat \<Rightarrow> HttpCache \<Rightarrow> HttpCache option" where
  "OnBackendCreated env result p c = do {
     po \<leftarrow> ops c p;
     item \<leftarrow> op_writer po;
     DCHECK (wi_operation item = WI_CREATE_BACKEND);
     let po1 = po\<lparr>op_callback := None\<rparr>;
     let backend = op_backend po;
     let c1 = (if backend_factory c \<noteq> None
               then c\<lparr>backend_factory := None,
                      disk_cache := (if result = OK then backend else disk_cache c)\<rparr>
               else c);
     c2 \<leftarrow> (case op_pending_queue po1 of
              pending_item # rest \<Rightarrow> do {
                DCHECK (wi_operation pending_item = WI_CREATE_BACKEND);
                Some (PostTask (OnBackendCreatedTask result p)
                        (store_op p (po1\<lparr>op_pending_queue := rest,
                                         op_writer := Some pending_item\<rparr>) c1))
              }
            | [] \<Rightarrow> DeletePendingOp env p (store_op p po1 (c1\<lparr>building_backend := False\<rparr>)));
     (case DoCallback env item result backend c2 of
        (True, c3) \<Rightarrow> Some c3
      | (False, c3) \<Rightarrow> NotifyTransaction env item result None c3)
   }"

text \<open>
  \<^verbatim>\<open>OnIOComplete\<close>, lines 982 to 1017: the lead item is taken, the entry is activated (or
  the disk entry is given up), the queue of the op is swapped into the local list
  \<^verbatim>\<open>pending_items\<close> and the op is deleted. The result is the lead item, \<^verbatim>\<open>fail_requests\<close>,
  \<^verbatim>\<open>entry\<close>, \<^verbatim>\<open>key\<close>, \<^verbatim>\<open>pending_items\<close> and the cache.
\<close>

definition OnIOComplete_prepare ::
    "Env \<Rightarrow> int \<Rightarrow> nat \<Rightarrow> HttpCache \<Rightarrow>
       (WorkItem \<times> bool \<times> nat option \<times> string \<times> WorkItem list \<times> HttpCache) option" where
  "OnIOComplete_prepare env result p c = do {
     po \<leftarrow> ops c p;
     item \<leftarrow> op_writer po;
     let opn = wi_operation item;
     (fail_requests, entry, k, c1) \<leftarrow>
        (if result = OK then
           (if opn = WI_DOOM_ENTRY then Some (True, None, [], c)
            else if IsValid item then do {
              d \<leftarrow> op_disk_entry po;
              (entry, c1) \<leftarrow> ActivateEntry (get_key env d) d c;
              Some (False, Some entry, get_key env d, c1)
            }
            else do {
              d \<leftarrow> op_disk_entry po;
              let c1 = (if opn = WI_CREATE_ENTRY then emit (DiskDoom d) c else c);
              Some (True, None, [],
                    store_op p (po\<lparr>op_disk_entry := None\<rparr>) (emit (DiskClose d) c1))
            })
         else Some (False, None, [], c));
     po1 \<leftarrow> ops c1 p;
     c2 \<leftarrow> DeletePendingOp env p (store_op p (po1\<lparr>op_pending_queue := []\<rparr>) c1);
     Some (item, fail_requests, entry, k, op_pending_queue po1, c2)
   }"

text \<open>
  \<^verbatim>\<open>OnIOComplete\<close>, lines 1021 to 1061: the loop over the local list. \<open>opn\<close> is the
  operation of the lead item; \<open>fail_requests\<close> and \<open>entry\<close> are the loop's variables.
\<close>

fun OnIOComplete_loop ::
    "Env \<Rightarrow> int \<Rightarrow> WorkItemOperation \<Rightarrow> string \<Rightarrow> WorkItem list \<Rightarrow> bool \<Rightarrow> nat option \<Rightarrow>
       HttpCache \<Rightarrow> HttpCache option" where
  "OnIOComplete_loop env result opn k [] fail_requests entry c = Some c"
| "OnIOComplete_loop env result opn k (item # pending_items) fail_requests entry c =
     (let entry1 = (if wi_operation item \<noteq> WI_DOOM_ENTRY \<and> result = OK
                    then FindActiveEntry k c else entry);
          fail1 = (if wi_operation item = WI_DOOM_ENTRY then True
                   else if result = OK \<and> entry1 = None then True
                   else fail_requests)
      in if fail1 then do {
           c1 \<leftarrow> NotifyTransaction env item ERR_CACHE_RACE None c;
           OnIOComplete_loop env result opn k pending_items fail1 entry1 c1
         }
         else if wi_operation item = WI_CREATE_ENTRY then
           (if result = OK then do {
              c1 \<leftarrow> NotifyTransaction env item ERR_CACHE_CREATE_FAILURE None c;
              OnIOComplete_loop env result opn k pending_items fail1 entry1 c1
            }
            else if opn \<noteq> WI_CREATE_ENTRY then do {
              c1 \<leftarrow> NotifyTransaction env item ERR_CACHE_RACE None c;
              OnIOComplete_loop env result opn k pending_items True entry1 c1
            }
            else do {
              c1 \<leftarrow> NotifyTransaction env item result entry1 c;
              OnIOComplete_loop env result opn k pending_items fail1 entry1 c1
            })
         else
           (if opn = WI_CREATE_ENTRY \<and> result \<noteq> OK then do {
              c1 \<leftarrow> NotifyTransaction env item ERR_CACHE_RACE None c;
              OnIOComplete_loop env result opn k pending_items True entry1 c1
            }
            else do {
              c1 \<leftarrow> NotifyTransaction env item result entry1 c;
              OnIOComplete_loop env result opn k pending_items fail1 entry1 c1
            }))"

definition OnIOComplete :: "Env \<Rightarrow> int \<Rightarrow> nat \<Rightarrow> HttpCache \<Rightarrow> HttpCache option" where
  "OnIOComplete env result p c = do {
     po \<leftarrow> ops c p;
     w \<leftarrow> op_writer po;
     if wi_operation w = WI_CREATE_BACKEND then OnBackendCreated env result p c
     else do {
       (item, fail_requests, entry, k, pending_items, c1) \<leftarrow> OnIOComplete_prepare env result p c;
       c2 \<leftarrow> NotifyTransaction env item result entry c1;
       OnIOComplete_loop env result (wi_operation item) k pending_items fail_requests entry c2
     }
   }"

subsection \<open>Lookup operations\<close>

text \<open>
  \<^verbatim>\<open>OpenEntry\<close>. \<open>slot\<close> is the \<^verbatim>\<open>ActiveEntry** entry\<close> parameter. When the backend
  completes at once, its callback runs inside the call.
\<close>

definition OpenEntry ::
    "Env \<Rightarrow> string \<Rightarrow> nat \<Rightarrow> nat \<Rightarrow> HttpCache \<Rightarrow> (int \<times> HttpCache) option" where
  "OpenEntry env k slot tr c =
     (case FindActiveEntry k c of
        Some active_entry \<Rightarrow>
          Some (OK, c\<lparr>entry_out := (entry_out c)(slot \<mapsto> Some active_entry)\<rparr>)
      | None \<Rightarrow> do {
          let item = WorkItem_entry WI_OPEN_ENTRY (Some tr) (Some slot);
          (p, c1) \<leftarrow> GetPendingOp k c;
          po \<leftarrow> ops c1 p;
          if op_writer po \<noteq> None
          then Some (ERR_IO_PENDING,
                     store_op p (po\<lparr>op_pending_queue := op_pending_queue po @ [item]\<rparr>) c1)
          else do {
            DCHECK (op_pending_queue po = []);
            _ \<leftarrow> disk_cache c1;
            let (rv, d) = backend_OpenEntry env k;
            if rv \<noteq> ERR_IO_PENDING then do {
              c2 \<leftarrow> OnIOComplete env rv p
                      (store_op p (po\<lparr>op_writer := Some (item\<lparr>wi_trans := None\<rparr>),
                                      op_callback := Some p, op_disk_entry := d\<rparr>) c1);
              Some (rv, c2)
            }
            else Some (rv, store_op p (po\<lparr>op_writer := Some item, op_callback := Some p\<rparr>) c1)
          }
        })"

definition CreateEntry ::
    "Env \<Rightarrow> string \<Rightarrow> nat \<Rightarrow> nat \<Rightarrow> HttpCache \<Rightarrow> (int \<times> HttpCache) option" where
  "CreateEntry env k slot tr c = do {
     DCHECK (FindActiveEntry k c = None);
     let item = WorkItem_entry WI_CREATE_ENTRY (Some tr) (Some slot);
     (p, c1) \<leftarrow> GetPendingOp k c;
     po \<leftarrow> ops c1 p;
     if op_writer po \<noteq> None
     then Some (ERR_IO_PENDING,
                store_op p (po\<lparr>op_pending_queue := op_pending_queue po @ [item]\<rparr>) c1)
     else do {
       DCHECK (op_pending_queue po = []);
       _ \<leftarrow> disk_cache c1;
       let (rv, d) = backend_CreateEntry env k;
       if rv \<noteq> ERR_IO_PENDING then do {
         c2 \<leftarrow> OnIOComplete env rv p
                 (store_op p (po\<lparr>op_writer := Some (item\<lparr>wi_trans := None\<rparr>),
                                 op_callback := Some p, op_disk_entry := d\<rparr>) c1);
         Some (rv, c2)
       }
       else Some (rv, store_op p (po\<lparr>op_writer := Some item, op_callback := Some p\<rparr>) c1)
     }
   }"

definition AsyncDoomEntry ::
    "Env \<Rightarrow> string \<Rightarrow> nat \<Rightarrow> HttpCache \<Rightarrow> (int \<times> HttpCache) option" where
  "AsyncDoomEntry env k tr c = do {
     let item = WorkItem_entry WI_DOOM_ENTRY (Some tr) None;
     (p, c1) \<leftarrow> GetPendingOp k c;
     po \<leftarrow> ops c1 p;
     if op_writer po \<noteq> None
     then Some (ERR_IO_PENDING,
                store_op p (po\<lparr>op_pending_queue := op_pending_queue po @ [item]\<rparr>) c1)
     else do {
       DCHECK (op_pending_queue po = []);
       _ \<leftarrow> disk_cache c1;
       let rv = backend_DoomEntry env k;
       if rv \<noteq> ERR_IO_PENDING then do {
         c2 \<leftarrow> OnIOComplete env rv p
                 (store_op p (po\<lparr>op_writer := Some (item\<lparr>wi_trans := None\<rparr>),
                                 op_callback := Some p\<rparr>) c1);
         Some (rv, c2)
       }
       else Some (rv, store_op p (po\<lparr>op_writer := Some item, op_callback := Some p\<rparr>) c1)
     }
   }"

definition DoomEntry ::
    "Env \<Rightarrow> string \<Rightarrow> nat \<Rightarrow> HttpCache \<Rightarrow> (int \<times> HttpCache) option" where
  "DoomEntry env k tr c =
     (case map_of (active_entries c) k of
        None \<Rightarrow> AsyncDoomEntry env k tr c
      | Some entry \<Rightarrow> do {
          e \<leftarrow> entries c entry;
          d \<leftarrow> disk_entry e;
          DCHECK (writer e \<noteq> None \<or> readers e \<noteq> []);
          Some (OK,
                store_entry entry (e\<lparr>doomed := True\<rparr>)
                  (emit (DiskDoom d)
                     (c\<lparr>active_entries := erase_key k (active_entries c),
                        doomed_entries := insort entry (removeAll entry (doomed_entries c))\<rparr>)))
        })"

subsection \<open>The backend-creation gate\<close>

text \<open>
  \<^verbatim>\<open>CreateBackend\<close>. \<open>slot\<close> and \<open>cb\<close> are the \<^verbatim>\<open>Backend** backend\<close> and
  \<^verbatim>\<open>CompletionCallback* callback\<close> parameters; both may be null.
\<close>

definition CreateBackend ::
    "Env \<Rightarrow> nat option \<Rightarrow> nat option \<Rightarrow> HttpCache \<Rightarrow> (int \<times> HttpCache) option" where
  "CreateBackend env slot cb c =
     (case backend_factory c of
        None \<Rightarrow> Some (ERR_FAILED, c)
      | Some factory \<Rightarrow> do {
          let item = WorkItem_backend WI_CREATE_BACKEND None cb slot;
          (p, c1) \<leftarrow> GetPendingOp [] (c\<lparr>building_backend := True\<rparr>);
          po \<leftarrow> ops c1 p;
          if op_writer po \<noteq> None
          then Some (ERR_IO_PENDING,
                     if cb \<noteq> None
                     then store_op p (po\<lparr>op_pending_queue := op_pending_queue po @ [item]\<rparr>) c1
                     else c1)
          else do {
            DCHECK (op_pending_queue po = []);
            let (rv, b) = factory_CreateBackend env factory;
            if rv \<noteq> ERR_IO_PENDING then do {
              c2 \<leftarrow> OnIOComplete env rv p
                      (store_op p (po\<lparr>op_writer := Some (item\<lparr>wi_callback := None\<rparr>),
                                      op_callback := Some p, op_backend := b\<rparr>) c1);
              Some (rv, c2)
            }
            else Some (rv, store_op p (po\<lparr>op_writer := Some item, op_callback := Some p\<rparr>) c1)
          }
        })"

definition GetBackend ::
    "Env \<Rightarrow> nat \<Rightarrow> nat option \<Rightarrow> HttpCache \<Rightarrow> (int \<times> HttpCache) option" where
  "GetBackend env slot cb c = do {
     DCHECK (cb \<noteq> None);
     (case disk_cache c of
        Some b \<Rightarrow> Some (OK, c\<lparr>backend_out := (backend_out c)(slot \<mapsto> Some b)\<rparr>)
      | None \<Rightarrow> CreateBackend env (Some slot) cb c)
   }"

definition GetBackendForTransaction :: "nat \<Rightarrow> HttpCache \<Rightarrow> (int \<times> HttpCache) option" where
  "GetBackendForTransaction tr c =
     (if disk_cache c \<noteq> None then Some (OK, c)
      else if \<not> building_backend c then Some (ERR_FAILED, c)
      else do {
        let item = WorkItem_backend WI_CREATE_BACKEND (Some tr) None None;
        (p, c1) \<leftarrow> GetPendingOp [] c;
        po \<leftarrow> ops c1 p;
        DCHECK (op_writer po \<noteq> None);
        Some (ERR_IO_PENDING,
              store_op p (po\<lparr>op_pending_queue := op_pending_queue po @ [item]\<rparr>) c1)
      })"

subsection \<open>Cancellation\<close>

definition RemovePendingTransactionFromEntry ::
    "nat \<Rightarrow> nat \<Rightarrow> HttpCache \<Rightarrow> (bool \<times> HttpCache) option" where
  "RemovePendingTransactionFromEntry entry tr c = do {
     e \<leftarrow> entries c entry;
     if tr \<notin> set (pending_queue e) then Some (False, c)
     else Some (True, store_entry entry (e\<lparr>pending_queue := remove1 tr (pending_queue e)\<rparr>) c)
   }"

text \<open>The loop of \<^verbatim>\<open>RemovePendingTransactionFromPendingOp\<close>: the first item that matches goes.\<close>

fun erase_matching :: "nat \<Rightarrow> WorkItem list \<Rightarrow> WorkItem list option" where
  "erase_matching tr [] = None"
| "erase_matching tr (item # items) =
     (if wi_trans item = Some tr then Some items
      else map_option (\<lambda>r. item # r) (erase_matching tr items))"

definition RemovePendingTransactionFromPendingOp ::
    "nat \<Rightarrow> nat \<Rightarrow> HttpCache \<Rightarrow> (bool \<times> HttpCache) option" where
  "RemovePendingTransactionFromPendingOp p tr c = do {
     po \<leftarrow> ops c p;
     w \<leftarrow> op_writer po;
     if wi_trans w = Some tr
     then Some (True, store_op p (po\<lparr>op_writer := Some (w\<lparr>wi_trans := None, wi_entry := None\<rparr>)\<rparr>) c)
     else (case erase_matching tr (op_pending_queue po) of
             Some items \<Rightarrow> Some (True, store_op p (po\<lparr>op_pending_queue := items\<rparr>) c)
           | None \<Rightarrow> Some (False, c))
   }"

text \<open>The loop of \<^verbatim>\<open>RemovePendingTransaction\<close> over the doomed entries.\<close>

fun RemovePendingTransaction_doomed ::
    "nat list \<Rightarrow> nat \<Rightarrow> HttpCache \<Rightarrow> (bool \<times> HttpCache) option" where
  "RemovePendingTransaction_doomed [] tr c = Some (False, c)"
| "RemovePendingTransaction_doomed (k # ks) tr c = do {
     (found, c1) \<leftarrow> RemovePendingTransactionFromEntry k tr c;
     if found then Some (True, c1) else RemovePendingTransaction_doomed ks tr c1
   }"

definition RemovePendingTransaction :: "Env \<Rightarrow> nat \<Rightarrow> HttpCache \<Rightarrow> HttpCache option" where
  "RemovePendingTransaction env tr c = do {
     (found, c1) \<leftarrow> (case map_of (active_entries c) (trans_key env tr) of
                       None \<Rightarrow> Some (False, c)
                     | Some entry \<Rightarrow> RemovePendingTransactionFromEntry entry tr c);
     if found then Some c1
     else do {
       (found, c2) \<leftarrow> (if building_backend c1
                        then (case map_of (pending_ops c1) [] of
                                None \<Rightarrow> Some (False, c1)
                              | Some p \<Rightarrow> RemovePendingTransactionFromPendingOp p tr c1)
                        else Some (False, c1));
       if found then Some c2
       else do {
         (found, c3) \<leftarrow> (case map_of (pending_ops c2) (trans_key env tr) of
                           None \<Rightarrow> Some (False, c2)
                         | Some p \<Rightarrow> RemovePendingTransactionFromPendingOp p tr c2);
         if found then Some c3
         else do {
           (found, c4) \<leftarrow> RemovePendingTransaction_doomed (doomed_entries c3) tr c3;
           DCHECK found;
           Some c4
         }
       }
     }
   }"

subsection \<open>Construction, tasks and backend completions\<close>

text \<open>The constructors: a cache in mode \<^verbatim>\<open>NORMAL\<close> with a backend factory and nothing else.\<close>

definition HttpCache_new :: "nat option \<Rightarrow> HttpCache" where
  "HttpCache_new factory =
     \<lparr>disk_cache = None, backend_factory = factory, building_backend = False,
      cache_mode = NORMAL, playback_cache_map = None, active_entries = [],
      doomed_entries = [], pending_ops = [], entries = Map.empty, ops = Map.empty,
      next_ptr = 0, entry_out = Map.empty, backend_out = Map.empty, tasks = [], log = []\<rparr>"

definition CreateTransaction :: "Env \<Rightarrow> HttpCache \<Rightarrow> (int \<times> HttpCache) option" where
  "CreateTransaction env c =
     (if disk_cache c = None
      then map_option (\<lambda>(rv, c1). (OK, c1)) (CreateBackend env None None c)
      else Some (OK, c))"

text \<open>The message loop runs the task at the head of its queue.\<close>

definition run_task :: "Env \<Rightarrow> HttpCache \<Rightarrow> HttpCache option" where
  "run_task env c =
     (case tasks c of
        [] \<Rightarrow> Some c
      | OnProcessPendingQueueTask entry # rest \<Rightarrow> OnProcessPendingQueue env entry (c\<lparr>tasks := rest\<rparr>)
      | OnBackendCreatedTask result p # rest \<Rightarrow> OnBackendCreated env result p (c\<lparr>tasks := rest\<rparr>))"

text \<open>
  \<^verbatim>\<open>BackendCallback::RunWithParams\<close> on a live cache, when the backend completes a call it
  left pending: the backend has stored what it produced (\<open>out\<close>) in the op.
\<close>

definition BackendCallback_Run ::
    "Env \<Rightarrow> nat \<Rightarrow> int \<Rightarrow> nat option \<Rightarrow> HttpCache \<Rightarrow> HttpCache option" where
  "BackendCallback_Run env p result out c = do {
     po \<leftarrow> ops c p;
     w \<leftarrow> op_writer po;
     OnIOComplete env result p
       (store_op p (if wi_operation w = WI_CREATE_BACKEND then po\<lparr>op_backend := out\<rparr>
                    else if wi_operation w = WI_DOOM_ENTRY then po
                    else po\<lparr>op_disk_entry := out\<rparr>) c)
   }"

subsection \<open>Cache keys\<close>

text \<open>
  Modelled from the spec: \<^verbatim>\<open>base::IntToString\<close> and the \<^verbatim>\<open>PRId64\<close> format of
  base/string_number_conversions and base/stringprintf, which are not among the sources:
  the decimal digits of the number, after a minus sign when it is negative.
\<close>

fun nat_to_string :: "nat \<Rightarrow> string" where
  "nat_to_string n =
     (if n < 10 then [char_of (48 + n)]
      else nat_to_string (n div 10) @ [char_of (48 + n mod 10)])"

definition IntToString :: "int \<Rightarrow> string" where
  "IntToString i = (if i < 0 then CHR ''-'' # nat_to_string (nat (- i)) else nat_to_string (nat i))"

text \<open>
  \<^verbatim>\<open>HttpRequestInfo\<close>, the members the key is made of. \<open>req_upload_data\<close> is the
  identifier of the upload data, \<open>None\<close> for a null \<^verbatim>\<open>upload_data\<close>.
\<close>

record HttpRequestInfo =
  req_url :: string
  req_method :: string
  req_upload_data :: "int option"

definition INT_MAX :: int where "INT_MAX = 2147483647"

text \<open>
  \<^verbatim>\<open>GenerateCacheKey\<close>. The generation is an \<^verbatim>\<open>int\<close>: incrementing \<^verbatim>\<open>INT_MAX\<close> is
  undefined, and the model stops there.
\<close>

definition GenerateCacheKey ::
    "Env \<Rightarrow> HttpRequestInfo \<Rightarrow> HttpCache \<Rightarrow> (string \<times> HttpCache) option" where
  "GenerateCacheKey env request c = do {
     let u = spec_for_request env (req_url request);
     DCHECK (cache_mode c \<noteq> DISABLE);
     if cache_mode c = NORMAL
     then Some (case req_upload_data request of
                  None \<Rightarrow> u
                | Some ident \<Rightarrow> if ident \<noteq> 0 then IntToString ident @ ''/'' @ u else u,
                c)
     else do {
       let m = (case playback_cache_map c of None \<Rightarrow> [] | Some m \<Rightarrow> m);
       let generation = (case map_of m u of None \<Rightarrow> 0 | Some g \<Rightarrow> g);
       if generation = INT_MAX then None
       else Some (IntToString generation @ req_method request @ u,
                  c\<lparr>playback_cache_map := Some (assign_key u (generation + 1) m)\<rparr>)
     }
   }"

text \<open>\<open>n\<close> successive key computations for one request; the keys in the order computed.\<close>

fun GenerateCacheKeys ::
    "Env \<Rightarrow> HttpRequestInfo \<Rightarrow> nat \<Rightarrow> HttpCache \<Rightarrow> (string list \<times> HttpCache) option" where
  "GenerateCacheKeys env request 0 c = Some ([], c)"
| "GenerateCacheKeys env request (Suc n) c = do {
     (k, c1) \<leftarrow> GenerateCacheKey env request c;
     (ks, c2) \<leftarrow> GenerateCacheKeys env request n c1;
     Some (k # ks, c2)
   }"

subsection \<open>An example environment and example caches\<close>

text \<open>
  Transaction 3 is a \<^verbatim>\<open>READ_WRITE\<close> transaction, every other one reads; all use the key
  \<open>k\<close>. The callbacks leave the cache alone. The backend opens entries at once and leaves
  the other calls pending.
\<close>

definition example_env :: Env where
  "example_env =
     \<lparr>trans_mode = (\<lambda>tr. if tr = 3 then READ_WRITE else READ),
      trans_key = (\<lambda>tr. ''k''),
      add_truncated_flag = (\<lambda>tr. False),
      io_callback = (\<lambda>tr result c. c),
      user_callback = (\<lambda>cb result c. c),
      get_key = (\<lambda>d. ''k''),
      backend_OpenEntry = (\<lambda>k. (OK, Some 7)),
      backend_CreateEntry = (\<lambda>k. (ERR_IO_PENDING, None)),
      backend_DoomEntry = (\<lambda>k. ERR_IO_PENDING),
      factory_CreateBackend = (\<lambda>f. (ERR_IO_PENDING, None)),
      spec_for_request = (\<lambda>u. u)\<rparr>"

definition example_entry :: "nat option \<Rightarrow> nat list \<Rightarrow> nat list \<Rightarrow> bool \<Rightarrow> ActiveEntry" where
  "example_entry w rs q flag =
     \<lparr>disk_entry = Some 7, writer = w, readers = rs, pending_queue = q,
      will_process_pending_queue = flag, doomed = False\<rparr>"

definition example_cache :: "ActiveEntry \<Rightarrow> HttpCache" where
  "example_cache e =
     (HttpCache_new None)\<lparr>disk_cache := Some 0, active_entries := [(''k'', 2)],
                          entries := [2 \<mapsto> e], next_ptr := 3\<rparr>"



subsection \<open>Statements about callbacks\<close>

text \<open>
  The calls of transaction callbacks a log records, in order: the transaction and the
  status it is called with.
\<close>

fun io_calls :: "Event list \<Rightarrow> (nat \<times> int) list" where
  "io_calls [] = []"
| "io_calls (IoCallback tr r # evs) = (tr, r) # io_calls evs"
| "io_calls (ev # evs) = io_calls evs"


text \<open>
  Two conditions on the callbacks of the transactions. The first: a callback only adds to
  the log, which is a history of calls. The second: what a callback does to the cache
  calls no transaction.
\<close>

definition callbacks_append :: "Env \<Rightarrow> bool" where
  "callbacks_append env = (\<forall>tr r c. \<exists>evs. log (io_callback env tr r c) = log c @ evs)"

definition callbacks_notify_nobody :: "Env \<Rightarrow> bool" where
  "callbacks_notify_nobody env =
     (\<forall>tr r c. io_calls (log (io_callback env tr r c)) = io_calls (log c))"

subsection \<open>Statements about cancellation\<close>

text \<open>
  Where a transaction is not found, as \<^verbatim>\<open>RemovePendingTransaction\<close> tests it: in the
  pending queue of the active entry of its key, in the backend-creation gate (searched
  only while the backend is being built), and in the pending op of its key.
\<close>

definition not_in_active_entry :: "Env \<Rightarrow> nat \<Rightarrow> HttpCache \<Rightarrow> bool" where
  "not_in_active_entry env tr c =
     (case map_of (active_entries c) (trans_key env tr) of
        None \<Rightarrow> True
      | Some entry \<Rightarrow> RemovePendingTransactionFromEntry entry tr c = Some (False, c))"

definition not_in_gate :: "nat \<Rightarrow> HttpCache \<Rightarrow> bool" where
  "not_in_gate tr c =
     (if building_backend c
      then (case map_of (pending_ops c) [] of
              None \<Rightarrow> True
            | Some g \<Rightarrow> RemovePendingTransactionFromPendingOp g tr c = Some (False, c))
      else True)"

definition not_in_key_op :: "Env \<Rightarrow> nat \<Rightarrow> HttpCache \<Rightarrow> bool" where
  "not_in_key_op env tr c =
     (case map_of (pending_ops c) (trans_key env tr) of
        None \<Rightarrow> True
      | Some p \<Rightarrow> RemovePendingTransactionFromPendingOp p tr c = Some (False, c))"

text \<open>
  The search of \<^verbatim>\<open>RemovePendingTransaction\<close> in the order the specification gives
  (section 4.7): the active entry of the key, the pending op of the key, the
  backend-creation gate, the doomed entries.
\<close>

definition RemovePendingTransaction_spec_order ::
    "Env \<Rightarrow> nat \<Rightarrow> HttpCache \<Rightarrow> HttpCache option" where
  "RemovePendingTransaction_spec_order env tr c = do {
     (found, c1) \<leftarrow> (case map_of (active_entries c) (trans_key env tr) of
                       None \<Rightarrow> Some (False, c)
                     | Some entry \<Rightarrow> RemovePendingTransactionFromEntry entry tr c);
     if found then Some c1
     else do {
       (found, c2) \<leftarrow> (case map_of (pending_ops c1) (trans_key env tr) of
                         None \<Rightarrow> Some (False, c1)
                       | Some p \<Rightarrow> RemovePendingTransactionFromPendingOp p tr c1);
       if found then Some c2
       else do {
         (found, c3) \<leftarrow> (case map_of (pending_ops c2) [] of
                           None \<Rightarrow> Some (False, c2)
                         | Some p \<Rightarrow> RemovePendingTransactionFromPendingOp p tr c2);
         if found then Some c3
         else do {
           (found, c4) \<leftarrow> RemovePendingTransaction_doomed (doomed_entries c3) tr c3;
           DCHECK found;
           Some c4
         }
       }
     }
   }"

text \<open>
  A cache whose backend is being built: transaction 4 waits both in the gate (op 0) and
  behind transaction 5 in the pending op of its key (op 1).
\<close>

definition gate_cache :: HttpCache where
  "gate_cache =
     (HttpCache_new None)\<lparr>disk_cache := Some 5, building_backend := True,
        pending_ops := [([], 0), (''k'', 1)],
        ops := [0 \<mapsto> PendingOp_new\<lparr>
                       op_writer := Some (WorkItem_backend WI_CREATE_BACKEND None None None),
                       op_pending_queue := [WorkItem_backend WI_CREATE_BACKEND (Some 4) None None]\<rparr>,
                1 \<mapsto> PendingOp_new\<lparr>
                       op_writer := Some (WorkItem_entry WI_OPEN_ENTRY (Some 5) (Some 8)),
                       op_pending_queue := [WorkItem_entry WI_OPEN_ENTRY (Some 4) (Some 9)]\<rparr>],
        next_ptr := 2\<rparr>"

text \<open>The queue of the pending op \<open>p\<close> in the cache an operation returns.\<close>

definition queue_of :: "nat \<Rightarrow> HttpCache option \<Rightarrow> WorkItem list option" where
  "queue_of p r = do { c \<leftarrow> r; po \<leftarrow> ops c p; Some (op_pending_queue po) }"

subsection \<open>Statements about cache keys\<close>

text \<open>The generation the playback map holds for a URL, zero when it holds none.\<close>

definition generation_of :: "string \<Rightarrow> HttpCache \<Rightarrow> int" where
  "generation_of u c =
     (case playback_cache_map c of
        None \<Rightarrow> 0
      | Some m \<Rightarrow> (case map_of m u of None \<Rightarrow> 0 | Some g \<Rightarrow> g))"

text \<open>Reading a decimal numeral back, the inverse of \<open>nat_to_string\<close>.\<close>

definition string_to_nat :: "string \<Rightarrow> nat" where
  "string_to_nat s = foldl (\<lambda>acc ch. 10 * acc + (of_char ch - 48)) 0 s"

definition example_request :: HttpRequestInfo where
  "example_request = \<lparr>req_url = ''u'', req_method = ''GET'', req_upload_data = None\<rparr>"

subsection \<open>Statements about the completion of a pending op\<close>



text \<open>The transactions whose callbacks a log records, in order.\<close>

fun io_callbacks :: "Event list \<Rightarrow> nat list" where
  "io_callbacks [] = []"
| "io_callbacks (IoCallback tr r # evs) = tr # io_callbacks evs"
| "io_callbacks (ev # evs) = io_callbacks evs"

text \<open>Every entry of the active table is live and has a disk entry.\<close>

definition active_entries_live :: "HttpCache \<Rightarrow> bool" where
  "active_entries_live c =
     (\<forall>ka \<in> set (active_entries c).
        case entries c (snd ka) of None \<Rightarrow> False | Some e \<Rightarrow> disk_entry e \<noteq> None)"

text \<open>The callbacks of the transactions and of the users keep a property of the cache.\<close>

definition callbacks_keep :: "(HttpCache \<Rightarrow> bool) \<Rightarrow> Env \<Rightarrow> bool" where
  "callbacks_keep P env =
     (\<forall>tr r c. P c \<longrightarrow> P (io_callback env tr r c) \<and> P (user_callback env tr r c))"





subsection \<open>Statements about the reader and writer discipline\<close>

text \<open>Invariant A: an entry with a writer has no readers.\<close>

definition no_readers_beside_writer :: "(nat \<rightharpoonup> ActiveEntry) \<Rightarrow> bool" where
  "no_readers_beside_writer m =
     (\<forall>entry e. m entry = Some e \<longrightarrow> writer e \<noteq> None \<longrightarrow> readers e = [])"

definition invariant_A :: "HttpCache \<Rightarrow> bool" where
  "invariant_A c = no_readers_beside_writer (entries c)"


text \<open>
  The operations on a cache: the calls of the transactions and of the users, the tasks the
  message loop runs, and the completions of the backend.
\<close>

datatype Operation =
    Call_AddTransactionToEntry nat nat
  | Call_DoneWithEntry nat nat bool
  | Call_DoneWritingToEntry nat bool
  | Call_DoneReadingFromEntry nat nat
  | Call_ConvertWriterToReader nat
  | Call_OpenEntry string nat nat
  | Call_CreateEntry string nat nat
  | Call_DoomEntry string nat
  | Call_AsyncDoomEntry string nat
  | Call_GetBackend nat "nat option"
  | Call_GetBackendForTransaction nat
  | Call_CreateTransaction
  | Call_RemovePendingTransaction nat
  | Call_GenerateCacheKey HttpRequestInfo
  | Run_task
  | Backend_completes nat int "nat option"

fun perform :: "Env \<Rightarrow> Operation \<Rightarrow> HttpCache \<Rightarrow> HttpCache option" where
  "perform env (Call_AddTransactionToEntry entry tr) c =
     map_option snd (AddTransactionToEntry env entry tr c)"
| "perform env (Call_DoneWithEntry entry tr cancel) c = DoneWithEntry env entry tr cancel c"
| "perform env (Call_DoneWritingToEntry entry success) c = DoneWritingToEntry env entry success c"
| "perform env (Call_DoneReadingFromEntry entry tr) c = DoneReadingFromEntry entry tr c"
| "perform env (Call_ConvertWriterToReader entry) c = ConvertWriterToReader env entry c"
| "perform env (Call_OpenEntry k slot tr) c = map_option snd (OpenEntry env k slot tr c)"
| "perform env (Call_CreateEntry k slot tr) c = map_option snd (CreateEntry env k slot tr c)"
| "perform env (Call_DoomEntry k tr) c = map_option snd (DoomEntry env k tr c)"
| "perform env (Call_AsyncDoomEntry k tr) c = map_option snd (AsyncDoomEntry env k tr c)"
| "perform env (Call_GetBackend slot cb) c = map_option snd (GetBackend env slot cb c)"
| "perform env (Call_GetBackendForTransaction tr) c =
     map_option snd (GetBackendForTransaction tr c)"
| "perform env Call_CreateTransaction c = map_option snd (CreateTransaction env c)"
| "perform env (Call_RemovePendingTransaction tr) c = RemovePendingTransaction env tr c"
| "perform env (Call_GenerateCacheKey request) c =
     map_option snd (GenerateCacheKey env request c)"
| "perform env Run_task c = run_task env c"
| "perform env (Backend_completes p result out) c = BackendCallback_Run env p result out c"

text \<open>The caches a newly constructed cache reaches by these operations.\<close>

inductive reachable :: "Env \<Rightarrow> HttpCache \<Rightarrow> bool" for env :: Env where
  constructed: "reachable env (HttpCache_new factory)"
| performed: "reachable env c \<Longrightarrow> perform env operation c = Some c' \<Longrightarrow> reachable env c'"


text \<open>
  A run of a new cache: a transaction is created, the backend completes its creation, and
  transaction 3 opens the entry of the key \<open>k\<close> and is added to it.
\<close>

definition example_steps :: "Operation list" where
  "example_steps =
     [Call_CreateTransaction, Backend_completes 0 OK (Some 5), Call_OpenEntry ''k'' 9 3,
      Call_AddTransactionToEntry 2 3]"

fun perform_all :: "Env \<Rightarrow> Operation list \<Rightarrow> HttpCache \<Rightarrow> HttpCache option" where
  "perform_all env [] c = Some c"
| "perform_all env (operation # operations) c =
     perform env operation c \<bind> perform_all env operations"

section \<open>Properties\<close>

subsection \<open>Evaluation rules\<close>

lemma DCHECK_simps [simp]: "DCHECK True = Some ()" "DCHECK False = None"
  by (simp_all add: DCHECK_def)

lemma codes_distinct [simp]:
  "OK \<noteq> ERR_IO_PENDING" "ERR_IO_PENDING \<noteq> OK"
  "OK \<noteq> ERR_CACHE_RACE" "ERR_CACHE_RACE \<noteq> OK"
  "OK \<noteq> ERR_CACHE_CREATE_FAILURE" "ERR_CACHE_CREATE_FAILURE \<noteq> OK"
  "OK \<noteq> ERR_FAILED" "ERR_FAILED \<noteq> OK"
  "ERR_FAILED \<noteq> ERR_IO_PENDING" "ERR_IO_PENDING \<noteq> ERR_FAILED"
  "ERR_CACHE_RACE \<noteq> ERR_IO_PENDING" "ERR_IO_PENDING \<noteq> ERR_CACHE_RACE"
  "ERR_CACHE_CREATE_FAILURE \<noteq> ERR_IO_PENDING" "ERR_IO_PENDING \<noteq> ERR_CACHE_CREATE_FAILURE"
  "ERR_CACHE_CREATE_FAILURE \<noteq> ERR_CACHE_RACE" "ERR_CACHE_RACE \<noteq> ERR_CACHE_CREATE_FAILURE"
  by (simp_all add: OK_def ERR_IO_PENDING_def ERR_CACHE_RACE_def ERR_CACHE_CREATE_FAILURE_def ERR_FAILED_def)

lemma entries_example_cache [simp]: "entries (example_cache e) 2 = Some e"
  by (simp add: example_cache_def)

text \<open>
  C1. Admission to an active entry. With a writer present or a queue-drain posted the
  transaction is appended to the pending queue and the result is \<^verbatim>\<open>ERR_IO_PENDING\<close>.
  Otherwise a transaction whose mode includes \<^verbatim>\<open>WRITE\<close> becomes the writer with result
  \<^verbatim>\<open>OK\<close> exactly when there is no reader, and is queued with \<^verbatim>\<open>ERR_IO_PENDING\<close> when
  there is one; a transaction that only reads is appended to the readers with result
  \<^verbatim>\<open>OK\<close>. After an admission, an entry with no writer and a non-empty pending queue has a
  queue-drain posted.
\<close>

theorem AddTransactionToEntry_admission:
  assumes "entries c entry = Some e" and "disk_entry e \<noteq> None"
  shows "(writer e \<noteq> None \<or> will_process_pending_queue e \<longrightarrow>
            AddTransactionToEntry env entry tr c =
              Some (ERR_IO_PENDING,
                    store_entry entry (e\<lparr>pending_queue := pending_queue e @ [tr]\<rparr>) c))
       \<and> (writer e = None \<and> \<not> will_process_pending_queue e \<and>
            includes_WRITE (trans_mode env tr) \<and> readers e = [] \<longrightarrow>
            AddTransactionToEntry env entry tr c =
              Some (OK, store_entry entry (e\<lparr>writer := Some tr\<rparr>) c))
       \<and> (writer e = None \<and> \<not> will_process_pending_queue e \<and>
            includes_WRITE (trans_mode env tr) \<and> readers e \<noteq> [] \<longrightarrow>
            AddTransactionToEntry env entry tr c =
              Some (ERR_IO_PENDING,
                    store_entry entry (e\<lparr>pending_queue := pending_queue e @ [tr]\<rparr>) c))
       \<and> (writer e = None \<and> \<not> will_process_pending_queue e \<and>
            \<not> includes_WRITE (trans_mode env tr) \<longrightarrow>
            AddTransactionToEntry env entry tr c =
              Some (OK,
                if pending_queue e = []
                then store_entry entry (e\<lparr>readers := readers e @ [tr]\<rparr>) c
                else PostTask (OnProcessPendingQueueTask entry)
                       (store_entry entry
                          (e\<lparr>readers := readers e @ [tr], will_process_pending_queue := True\<rparr>) c)))
       \<and> (\<forall>c'. AddTransactionToEntry env entry tr c = Some (OK, c') \<longrightarrow>
            (\<exists>e'. entries c' entry = Some e' \<and>
               (writer e' = None \<and> pending_queue e' \<noteq> [] \<longrightarrow>
                  will_process_pending_queue e' \<and>
                  OnProcessPendingQueueTask entry \<in> set (tasks c'))))"
  using assms
  by (auto simp: AddTransactionToEntry_def ProcessPendingQueue_def PostTask_def store_entry_def Let_def split: if_splits)

theorem AddTransactionToEntry_admission_witness:
  "AddTransactionToEntry example_env 2 4 (example_cache (example_entry (Some 3) [] [] False)) =
     Some (ERR_IO_PENDING,
           store_entry 2 (example_entry (Some 3) [] [4] False)
             (example_cache (example_entry (Some 3) [] [] False)))
   \<and> AddTransactionToEntry example_env 2 3 (example_cache (example_entry None [] [] False)) =
     Some (OK, store_entry 2 (example_entry (Some 3) [] [] False)
                 (example_cache (example_entry None [] [] False)))
   \<and> AddTransactionToEntry example_env 2 3 (example_cache (example_entry None [4] [] False)) =
     Some (ERR_IO_PENDING,
           store_entry 2 (example_entry None [4] [3] False)
             (example_cache (example_entry None [4] [] False)))
   \<and> AddTransactionToEntry example_env 2 4 (example_cache (example_entry None [5] [3] False)) =
     Some (OK, PostTask (OnProcessPendingQueueTask 2)
                 (store_entry 2 (example_entry None [5, 4] [3] True)
                    (example_cache (example_entry None [5] [3] False))))"
proof -
  have d: "disk_entry (example_entry w rs q flag) \<noteq> None" for w rs q flag
    by (simp add: example_entry_def)
  show ?thesis
    using AddTransactionToEntry_admission [OF entries_example_cache d, of "Some 3" "[]" "[]" False example_env 4]
      AddTransactionToEntry_admission [OF entries_example_cache d, of None "[]" "[]" False example_env 3]
      AddTransactionToEntry_admission [OF entries_example_cache d, of None "[4]" "[]" False example_env 3]
      AddTransactionToEntry_admission [OF entries_example_cache d, of None "[5]" "[3]" False example_env 4]
    by (simp add: example_entry_def example_env_def)
qed

text \<open>
  C10. On an entry whose queue-drain is posted and whose readers are empty,
  \<^verbatim>\<open>DoneWithEntry\<close> returns at once: the cache is the same, so the writer, the readers
  and the pending queue of the entry are unchanged and the log has no call of
  \<^verbatim>\<open>AddTruncatedFlag\<close>, whatever \<open>cancel\<close> and the writer are.
\<close>

theorem DoneWithEntry_after_drain_posted:
  assumes "entries c entry = Some e"
    and "will_process_pending_queue e" and "readers e = []"
  shows "DoneWithEntry env entry tr cancel c = Some c"
  using assms by (simp add: DoneWithEntry_def)

theorem DoneWithEntry_after_drain_posted_witness:
  "DoneWithEntry example_env 2 3 True (example_cache (example_entry (Some 3) [] [4] True)) =
     Some (example_cache (example_entry (Some 3) [] [4] True))"
proof -
  have "will_process_pending_queue (example_entry (Some 3) [] [4] True)"
    and "readers (example_entry (Some 3) [] [4] True) = []"
    by (simp_all add: example_entry_def)
  then show ?thesis
    using DoneWithEntry_after_drain_posted [OF entries_example_cache] by blast
qed

subsection \<open>Release by the writer\<close>




lemma callbacks_example_env:
  "callbacks_append example_env" "callbacks_notify_nobody example_env"
  by (simp_all add: callbacks_append_def callbacks_notify_nobody_def example_env_def)





lemma map_of_erase_key [simp]:
  "map_of (erase_key k m) k' = (if k' = k then None else map_of m k')"
  by (induction m) (auto simp: erase_key_def)

lemma map_of_assign_key [simp]:
  "map_of (assign_key k v m) k' = (if k' = k then Some v else map_of m k')"
  by (simp add: assign_key_def map_add_def split: option.splits)

lemma erase_key_absent: "map_of m k = None \<Longrightarrow> erase_key k m = m"
  by (induction m) (auto simp: erase_key_def split: if_splits)

lemma erase_ptr_append_fresh: "p \<notin> snd ` set m \<Longrightarrow> erase_ptr p (m @ [(k, p)]) = m"
  by (induction m) auto

lemma erase_ptr_assign_fresh:
  "p \<notin> snd ` set m \<Longrightarrow> map_of m k = None \<Longrightarrow> erase_ptr p (assign_key k p m) = m"
  by (simp add: assign_key_def erase_key_absent erase_ptr_append_fresh)

subsection \<open>The backend and the lookup operations\<close>

text \<open>
  C8, as amended. \<^verbatim>\<open>GetBackend\<close> returns \<^verbatim>\<open>OK\<close> with the backend stored through \<open>slot\<close>
  when the backend is live. Otherwise: with no backend factory the result is
  \<^verbatim>\<open>ERR_FAILED\<close> and nothing changes; with a creation in flight the request is queued
  behind it and the result is \<^verbatim>\<open>ERR_IO_PENDING\<close>; else the result is the status the
  factory returns, \<^verbatim>\<open>ERR_IO_PENDING\<close> when the factory leaves the creation pending and,
  when it completes at once, its own status with what it produced stored through \<open>slot\<close>.
\<close>

theorem GetBackend_status:
  assumes "cb \<noteq> None"
  shows "(disk_cache c = Some b \<longrightarrow>
            GetBackend env slot cb c =
              Some (OK, c\<lparr>backend_out := (backend_out c)(slot \<mapsto> Some b)\<rparr>))
       \<and> (disk_cache c = None \<and> backend_factory c = None \<longrightarrow>
            GetBackend env slot cb c = Some (ERR_FAILED, c))
       \<and> (disk_cache c = None \<and> backend_factory c = Some f \<and> FindActiveEntry [] c = None \<and>
            map_of (pending_ops c) [] = Some p \<and> ops c p = Some po \<and> op_writer po \<noteq> None \<longrightarrow>
            GetBackend env slot cb c =
              Some (ERR_IO_PENDING,
                    store_op p
                      (po\<lparr>op_pending_queue := op_pending_queue po @
                            [WorkItem_backend WI_CREATE_BACKEND None cb (Some slot)]\<rparr>)
                      (c\<lparr>building_backend := True\<rparr>)))
       \<and> (disk_cache c = None \<and> backend_factory c = Some f \<and> FindActiveEntry [] c = None \<and>
            map_of (pending_ops c) [] = None \<and> next_ptr c \<notin> snd ` set (pending_ops c) \<and>
            factory_CreateBackend env f = (rv, out) \<longrightarrow>
            (\<exists>c'. GetBackend env slot cb c = Some (rv, c') \<and>
                  (if rv = ERR_IO_PENDING
                   then map_of (pending_ops c') [] = Some (next_ptr c) \<and>
                        disk_cache c' = None \<and> building_backend c' \<and>
                        backend_out c' = backend_out c
                   else backend_out c' slot = Some out \<and> \<not> building_backend c' \<and>
                        disk_cache c' = (if rv = OK then out else None) \<and>
                        map_of (pending_ops c') [] = None)))"
  using assms
  apply (intro conjI impI)
     apply (simp add: GetBackend_def)
    apply (simp add: GetBackend_def CreateBackend_def)
   apply (simp add: GetBackend_def CreateBackend_def GetPendingOp_def FindActiveEntry_def store_op_def)
  apply (clarsimp simp add: Let_def PendingOp_new_def WorkItem_backend_def GetBackend_def CreateBackend_def GetPendingOp_def store_op_def FindActiveEntry_def
      OnIOComplete_def OnBackendCreated_def DeletePendingOp_def DoCallback_def
      NotifyTransaction_def erase_ptr_assign_fresh)
  done


theorem GetBackend_status_witness:
  "GetBackend example_env 9 (Some 8) ((HttpCache_new None)\<lparr>disk_cache := Some 5\<rparr>) =
     Some (OK, (HttpCache_new None)\<lparr>disk_cache := Some 5, backend_out := [9 \<mapsto> Some 5]\<rparr>)
   \<and> GetBackend example_env 9 (Some 8) (HttpCache_new None) = Some (ERR_FAILED, HttpCache_new None)
   \<and> (\<exists>c'. GetBackend example_env 9 (Some 8) (HttpCache_new (Some 1)) = Some (ERR_IO_PENDING, c')
          \<and> map_of (pending_ops c') [] = Some 0 \<and> building_backend c')"
proof -
  have cb: "Some (8::nat) \<noteq> None" by simp
  note t = GetBackend_status [OF cb, of _ _ example_env 9]
  have "GetBackend example_env 9 (Some 8) ((HttpCache_new None)\<lparr>disk_cache := Some 5\<rparr>) =
     Some (OK, (HttpCache_new None)\<lparr>disk_cache := Some 5, backend_out := [9 \<mapsto> Some 5]\<rparr>)"
    using t [of "(HttpCache_new None)\<lparr>disk_cache := Some 5\<rparr>" 5]
    by (simp add: HttpCache_new_def)
  moreover have "GetBackend example_env 9 (Some 8) (HttpCache_new None) =
      Some (ERR_FAILED, HttpCache_new None)"
    using t [of "HttpCache_new None"] by (simp add: HttpCache_new_def)
  moreover have "\<exists>c'. GetBackend example_env 9 (Some 8) (HttpCache_new (Some 1)) =
      Some (ERR_IO_PENDING, c') \<and> map_of (pending_ops c') [] = Some 0 \<and> building_backend c'"
    using t [of "HttpCache_new (Some 1)" _ 1 _ _ ERR_IO_PENDING None]
    by (auto simp add: HttpCache_new_def FindActiveEntry_def example_env_def)
  ultimately show ?thesis by blast
qed

text \<open>
  C8 as stated fails: a cache with no live backend and no backend factory answers
  \<^verbatim>\<open>ERR_FAILED\<close>, not \<^verbatim>\<open>ERR_IO_PENDING\<close>.
\<close>

theorem GetBackend_pending_counterexample:
  "disk_cache (HttpCache_new None) = None
   \<and> GetBackend example_env 9 (Some 8) (HttpCache_new None) = Some (ERR_FAILED, HttpCache_new None)
   \<and> ERR_FAILED \<noteq> ERR_IO_PENDING"
  by (simp add: GetBackend_def CreateBackend_def HttpCache_new_def)

lemma OpenEntry_active:
  "FindActiveEntry k c = Some a \<Longrightarrow>
   OpenEntry env k slot tr c = Some (OK, c\<lparr>entry_out := (entry_out c)(slot \<mapsto> Some a)\<rparr>)"
  by (simp add: OpenEntry_def)

lemma OpenEntry_queued:
  "FindActiveEntry k c = None \<Longrightarrow> map_of (pending_ops c) k = Some p \<Longrightarrow> ops c p = Some po \<Longrightarrow>
   op_writer po \<noteq> None \<Longrightarrow>
   OpenEntry env k slot tr c =
     Some (ERR_IO_PENDING,
           store_op p (po\<lparr>op_pending_queue := op_pending_queue po @
                              [WorkItem_entry WI_OPEN_ENTRY (Some tr) (Some slot)]\<rparr>) c)"
  by (simp add: OpenEntry_def GetPendingOp_def)

lemma CreateEntry_queued:
  "FindActiveEntry k c = None \<Longrightarrow> map_of (pending_ops c) k = Some p \<Longrightarrow> ops c p = Some po \<Longrightarrow>
   op_writer po \<noteq> None \<Longrightarrow>
   CreateEntry env k slot tr c =
     Some (ERR_IO_PENDING,
           store_op p (po\<lparr>op_pending_queue := op_pending_queue po @
                              [WorkItem_entry WI_CREATE_ENTRY (Some tr) (Some slot)]\<rparr>) c)"
  by (simp add: CreateEntry_def GetPendingOp_def)

lemma OpenEntry_lead_pending:
  "FindActiveEntry k c = None \<Longrightarrow> map_of (pending_ops c) k = None \<Longrightarrow> disk_cache c \<noteq> None \<Longrightarrow>
   backend_OpenEntry env k = (ERR_IO_PENDING, d) \<Longrightarrow>
   \<exists>c'. OpenEntry env k slot tr c = Some (ERR_IO_PENDING, c')
      \<and> map_of (pending_ops c') k = Some (next_ptr c)
      \<and> ops c' (next_ptr c) =
          Some (PendingOp_new\<lparr>op_writer := Some (WorkItem_entry WI_OPEN_ENTRY (Some tr) (Some slot)),
                              op_callback := Some (next_ptr c)\<rparr>)
      \<and> log c' = log c"
  by (auto simp add: OpenEntry_def GetPendingOp_def Let_def PendingOp_new_def store_op_def)

lemma CreateEntry_lead_pending:
  "FindActiveEntry k c = None \<Longrightarrow> map_of (pending_ops c) k = None \<Longrightarrow> disk_cache c \<noteq> None \<Longrightarrow>
   backend_CreateEntry env k = (ERR_IO_PENDING, d) \<Longrightarrow>
   \<exists>c'. CreateEntry env k slot tr c = Some (ERR_IO_PENDING, c')
      \<and> map_of (pending_ops c') k = Some (next_ptr c)
      \<and> ops c' (next_ptr c) =
          Some (PendingOp_new\<lparr>op_writer := Some (WorkItem_entry WI_CREATE_ENTRY (Some tr) (Some slot)),
                              op_callback := Some (next_ptr c)\<rparr>)
      \<and> log c' = log c"
  by (auto simp add: CreateEntry_def GetPendingOp_def Let_def PendingOp_new_def store_op_def)

lemma OpenEntry_at_once_OK:
  "FindActiveEntry k c = None \<Longrightarrow> map_of (pending_ops c) k = None \<Longrightarrow> disk_cache c \<noteq> None \<Longrightarrow>
   k \<noteq> [] \<Longrightarrow> backend_OpenEntry env k = (OK, Some d) \<Longrightarrow> get_key env d = k \<Longrightarrow>
   \<exists>c'. OpenEntry env k slot tr c = Some (OK, c')
      \<and> FindActiveEntry k c' = Some (Suc (next_ptr c))
      \<and> entries c' (Suc (next_ptr c)) = Some (ActiveEntry_new d)
      \<and> entry_out c' slot = Some (Some (Suc (next_ptr c)))
      \<and> map_of (pending_ops c') k = None
      \<and> log c' = log c"
  by (auto simp add: OpenEntry_def GetPendingOp_def Let_def PendingOp_new_def store_op_def
      OnIOComplete_def OnIOComplete_prepare_def WorkItem_entry_def IsValid_def ActivateEntry_def
      FindActiveEntry_def DeletePendingOp_def NotifyTransaction_def ActiveEntry_new_def)


lemma OpenEntry_at_once_failed:
  "FindActiveEntry k c = None \<Longrightarrow> map_of (pending_ops c) k = None \<Longrightarrow> disk_cache c \<noteq> None \<Longrightarrow>
   next_ptr c \<notin> snd ` set (pending_ops c) \<Longrightarrow>
   backend_OpenEntry env k = (rv, None) \<Longrightarrow> rv \<noteq> OK \<Longrightarrow> rv \<noteq> ERR_IO_PENDING \<Longrightarrow>
   \<exists>c'. OpenEntry env k slot tr c = Some (rv, c')
      \<and> FindActiveEntry k c' = None
      \<and> entry_out c' slot = Some None
      \<and> map_of (pending_ops c') k = None
      \<and> log c' = log c"
  by (auto simp add: OpenEntry_def GetPendingOp_def Let_def PendingOp_new_def store_op_def
      OnIOComplete_def OnIOComplete_prepare_def WorkItem_entry_def
      FindActiveEntry_def DeletePendingOp_def NotifyTransaction_def erase_ptr_assign_fresh)

lemma CreateEntry_at_once_OK:
  "FindActiveEntry k c = None \<Longrightarrow> map_of (pending_ops c) k = None \<Longrightarrow> disk_cache c \<noteq> None \<Longrightarrow>
   k \<noteq> [] \<Longrightarrow> backend_CreateEntry env k = (OK, Some d) \<Longrightarrow> get_key env d = k \<Longrightarrow>
   \<exists>c'. CreateEntry env k slot tr c = Some (OK, c')
      \<and> FindActiveEntry k c' = Some (Suc (next_ptr c))
      \<and> entries c' (Suc (next_ptr c)) = Some (ActiveEntry_new d)
      \<and> entry_out c' slot = Some (Some (Suc (next_ptr c)))
      \<and> map_of (pending_ops c') k = None
      \<and> log c' = log c"
  by (auto simp add: CreateEntry_def GetPendingOp_def Let_def PendingOp_new_def store_op_def
      OnIOComplete_def OnIOComplete_prepare_def WorkItem_entry_def IsValid_def ActivateEntry_def
      FindActiveEntry_def DeletePendingOp_def NotifyTransaction_def ActiveEntry_new_def)

lemma CreateEntry_at_once_failed:
  "FindActiveEntry k c = None \<Longrightarrow> map_of (pending_ops c) k = None \<Longrightarrow> disk_cache c \<noteq> None \<Longrightarrow>
   next_ptr c \<notin> snd ` set (pending_ops c) \<Longrightarrow>
   backend_CreateEntry env k = (rv, None) \<Longrightarrow> rv \<noteq> OK \<Longrightarrow> rv \<noteq> ERR_IO_PENDING \<Longrightarrow>
   \<exists>c'. CreateEntry env k slot tr c = Some (rv, c')
      \<and> FindActiveEntry k c' = None
      \<and> entry_out c' slot = Some None
      \<and> map_of (pending_ops c') k = None
      \<and> log c' = log c"
  by (auto simp add: CreateEntry_def GetPendingOp_def Let_def PendingOp_new_def store_op_def
      OnIOComplete_def OnIOComplete_prepare_def WorkItem_entry_def
      FindActiveEntry_def DeletePendingOp_def NotifyTransaction_def erase_ptr_assign_fresh)

text \<open>
  C7, as amended. \<^verbatim>\<open>OpenEntry\<close> returns \<^verbatim>\<open>OK\<close> with the existing entry stored through
  \<open>slot\<close> when the key has an active entry. Otherwise \<^verbatim>\<open>OpenEntry\<close> makes an
  \<^verbatim>\<open>WI_OPEN_ENTRY\<close> item and \<^verbatim>\<open>CreateEntry\<close> an \<^verbatim>\<open>WI_CREATE_ENTRY\<close> item. Behind the
  lead of the key's pending op the item is queued and the result is \<^verbatim>\<open>ERR_IO_PENDING\<close>.
  With no pending op the item becomes the lead of a new one and the result is what the
  backend's call returns: \<^verbatim>\<open>ERR_IO_PENDING\<close> when the backend leaves the call pending;
  when the backend completes at once, its status, with the entry activated and stored
  through \<open>slot\<close> on \<^verbatim>\<open>OK\<close>, null stored on failure, the pending op deleted, and no
  callback run.
\<close>

theorem OpenEntry_CreateEntry_status:
  "(FindActiveEntry k c = Some a \<longrightarrow>
      OpenEntry env k slot tr c = Some (OK, c\<lparr>entry_out := (entry_out c)(slot \<mapsto> Some a)\<rparr>))
   \<and> (FindActiveEntry k c = None \<and> map_of (pending_ops c) k = Some p \<and> ops c p = Some po \<and>
        op_writer po \<noteq> None \<longrightarrow>
        OpenEntry env k slot tr c =
          Some (ERR_IO_PENDING,
                store_op p (po\<lparr>op_pending_queue := op_pending_queue po @
                                   [WorkItem_entry WI_OPEN_ENTRY (Some tr) (Some slot)]\<rparr>) c)
        \<and> CreateEntry env k slot tr c =
          Some (ERR_IO_PENDING,
                store_op p (po\<lparr>op_pending_queue := op_pending_queue po @
                                   [WorkItem_entry WI_CREATE_ENTRY (Some tr) (Some slot)]\<rparr>) c))
   \<and> (FindActiveEntry k c = None \<and> map_of (pending_ops c) k = None \<and> disk_cache c \<noteq> None \<longrightarrow>
        (backend_OpenEntry env k = (ERR_IO_PENDING, d) \<longrightarrow>
           (\<exists>c'. OpenEntry env k slot tr c = Some (ERR_IO_PENDING, c')
              \<and> map_of (pending_ops c') k = Some (next_ptr c)
              \<and> ops c' (next_ptr c) =
                  Some (PendingOp_new\<lparr>op_writer :=
                          Some (WorkItem_entry WI_OPEN_ENTRY (Some tr) (Some slot)),
                        op_callback := Some (next_ptr c)\<rparr>)
              \<and> log c' = log c))
        \<and> (backend_CreateEntry env k = (ERR_IO_PENDING, d) \<longrightarrow>
           (\<exists>c'. CreateEntry env k slot tr c = Some (ERR_IO_PENDING, c')
              \<and> map_of (pending_ops c') k = Some (next_ptr c)
              \<and> ops c' (next_ptr c) =
                  Some (PendingOp_new\<lparr>op_writer :=
                          Some (WorkItem_entry WI_CREATE_ENTRY (Some tr) (Some slot)),
                        op_callback := Some (next_ptr c)\<rparr>)
              \<and> log c' = log c))
        \<and> (k \<noteq> [] \<and> backend_OpenEntry env k = (OK, Some dd) \<and> get_key env dd = k \<longrightarrow>
           (\<exists>c'. OpenEntry env k slot tr c = Some (OK, c')
              \<and> FindActiveEntry k c' = Some (Suc (next_ptr c))
              \<and> entries c' (Suc (next_ptr c)) = Some (ActiveEntry_new dd)
              \<and> entry_out c' slot = Some (Some (Suc (next_ptr c)))
              \<and> map_of (pending_ops c') k = None
              \<and> log c' = log c))
        \<and> (k \<noteq> [] \<and> backend_CreateEntry env k = (OK, Some dd) \<and> get_key env dd = k \<longrightarrow>
           (\<exists>c'. CreateEntry env k slot tr c = Some (OK, c')
              \<and> FindActiveEntry k c' = Some (Suc (next_ptr c))
              \<and> entries c' (Suc (next_ptr c)) = Some (ActiveEntry_new dd)
              \<and> entry_out c' slot = Some (Some (Suc (next_ptr c)))
              \<and> map_of (pending_ops c') k = None
              \<and> log c' = log c))
        \<and> (next_ptr c \<notin> snd ` set (pending_ops c) \<and> backend_OpenEntry env k = (rv, None) \<and>
            rv \<noteq> OK \<and> rv \<noteq> ERR_IO_PENDING \<longrightarrow>
           (\<exists>c'. OpenEntry env k slot tr c = Some (rv, c')
              \<and> FindActiveEntry k c' = None
              \<and> entry_out c' slot = Some None
              \<and> map_of (pending_ops c') k = None
              \<and> log c' = log c))
        \<and> (next_ptr c \<notin> snd ` set (pending_ops c) \<and> backend_CreateEntry env k = (rv, None) \<and>
            rv \<noteq> OK \<and> rv \<noteq> ERR_IO_PENDING \<longrightarrow>
           (\<exists>c'. CreateEntry env k slot tr c = Some (rv, c')
              \<and> FindActiveEntry k c' = None
              \<and> entry_out c' slot = Some None
              \<and> map_of (pending_ops c') k = None
              \<and> log c' = log c)))"
  by (intro conjI impI; (elim conjE)?;
      rule OpenEntry_active OpenEntry_queued CreateEntry_queued OpenEntry_lead_pending
        CreateEntry_lead_pending OpenEntry_at_once_OK CreateEntry_at_once_OK
        OpenEntry_at_once_failed CreateEntry_at_once_failed;
      assumption)

text \<open>
  C7 as stated fails: with no active entry for the key and a backend that opens the entry
  at once, \<^verbatim>\<open>OpenEntry\<close> returns \<^verbatim>\<open>OK\<close>, not \<^verbatim>\<open>ERR_IO_PENDING\<close>, and runs no callback.
\<close>

theorem OpenEntry_pending_counterexample:
  "FindActiveEntry ''k'' ((HttpCache_new None)\<lparr>disk_cache := Some 5\<rparr>) = None
   \<and> map_option fst (OpenEntry example_env ''k'' 9 4 ((HttpCache_new None)\<lparr>disk_cache := Some 5\<rparr>))
       = Some OK
   \<and> map_option (log \<circ> snd)
        (OpenEntry example_env ''k'' 9 4 ((HttpCache_new None)\<lparr>disk_cache := Some 5\<rparr>)) = Some []
   \<and> OK \<noteq> ERR_IO_PENDING"
  by (simp add: OpenEntry_def GetPendingOp_def Let_def PendingOp_new_def store_op_def
      OnIOComplete_def OnIOComplete_prepare_def WorkItem_entry_def IsValid_def ActivateEntry_def
      FindActiveEntry_def DeletePendingOp_def NotifyTransaction_def ActiveEntry_new_def
      HttpCache_new_def example_env_def assign_key_def erase_key_def)

theorem OpenEntry_CreateEntry_status_witness:
  "OpenEntry example_env ''k'' 9 4 (example_cache (example_entry (Some 3) [] [] False)) =
     Some (OK, (example_cache (example_entry (Some 3) [] [] False))\<lparr>entry_out := [9 \<mapsto> Some 2]\<rparr>)
   \<and> (\<exists>c'. CreateEntry example_env ''k'' 9 4 ((HttpCache_new None)\<lparr>disk_cache := Some 5\<rparr>) =
            Some (ERR_IO_PENDING, c')
          \<and> map_of (pending_ops c') ''k'' = Some 0)
   \<and> (\<exists>c'. OpenEntry example_env ''k'' 9 4 ((HttpCache_new None)\<lparr>disk_cache := Some 5\<rparr>) =
            Some (OK, c')
          \<and> FindActiveEntry ''k'' c' = Some 1 \<and> entry_out c' 9 = Some (Some 1) \<and> log c' = [])"
proof -
  let ?c = "(HttpCache_new None)\<lparr>disk_cache := Some 5\<rparr>"
  have "OpenEntry example_env ''k'' 9 4 (example_cache (example_entry (Some 3) [] [] False)) =
     Some (OK, (example_cache (example_entry (Some 3) [] [] False))\<lparr>entry_out := [9 \<mapsto> Some 2]\<rparr>)"
    using OpenEntry_CreateEntry_status
      [of "''k''" "example_cache (example_entry (Some 3) [] [] False)" 2 example_env 9 4]
    by (simp add: FindActiveEntry_def example_cache_def HttpCache_new_def)
  moreover have "\<exists>c'. CreateEntry example_env ''k'' 9 4 ?c = Some (ERR_IO_PENDING, c')
          \<and> map_of (pending_ops c') ''k'' = Some 0"
    using OpenEntry_CreateEntry_status [of "''k''" ?c _ example_env 9 4 _ _ None]
    by (auto simp add: FindActiveEntry_def HttpCache_new_def example_env_def)
  moreover have "\<exists>c'. OpenEntry example_env ''k'' 9 4 ?c = Some (OK, c')
          \<and> FindActiveEntry ''k'' c' = Some 1 \<and> entry_out c' 9 = Some (Some 1) \<and> log c' = []"
    using OpenEntry_CreateEntry_status [of "''k''" ?c _ example_env 9 4 _ _ _ 7]
    by (auto simp add: FindActiveEntry_def HttpCache_new_def example_env_def)
  ultimately show ?thesis by blast
qed

subsection \<open>Cancellation\<close>

lemma RemovePendingTransaction_in_entry:
  "map_of (active_entries c) (trans_key env tr) = Some entry \<Longrightarrow>
   RemovePendingTransactionFromEntry entry tr c = Some (True, c') \<Longrightarrow>
   RemovePendingTransaction env tr c = Some c'"
  by (simp add: RemovePendingTransaction_def)

lemma RemovePendingTransaction_in_gate:
  "not_in_active_entry env tr c \<Longrightarrow> building_backend c \<Longrightarrow> map_of (pending_ops c) [] = Some g \<Longrightarrow>
   RemovePendingTransactionFromPendingOp g tr c = Some (True, c') \<Longrightarrow>
   RemovePendingTransaction env tr c = Some c'"
  by (auto simp add: RemovePendingTransaction_def not_in_active_entry_def split: option.splits)

lemma RemovePendingTransaction_in_key_op:
  "not_in_active_entry env tr c \<Longrightarrow> not_in_gate tr c \<Longrightarrow>
   map_of (pending_ops c) (trans_key env tr) = Some p \<Longrightarrow>
   RemovePendingTransactionFromPendingOp p tr c = Some (True, c') \<Longrightarrow>
   RemovePendingTransaction env tr c = Some c'"
  by (auto simp add: RemovePendingTransaction_def not_in_active_entry_def not_in_gate_def
      split: option.splits if_splits)

lemma RemovePendingTransaction_in_doomed:
  "not_in_active_entry env tr c \<Longrightarrow> not_in_gate tr c \<Longrightarrow> not_in_key_op env tr c \<Longrightarrow>
   RemovePendingTransaction_doomed (doomed_entries c) tr c = Some (True, c') \<Longrightarrow>
   RemovePendingTransaction env tr c = Some c'"
  by (auto simp add: RemovePendingTransaction_def not_in_active_entry_def not_in_gate_def
      not_in_key_op_def split: option.splits if_splits)


lemma RemovePendingTransaction_doomed_first:
  "\<forall>j \<in> set ks1. \<exists>e'. entries c j = Some e' \<and> tr \<notin> set (pending_queue e') \<Longrightarrow>
   entries c k = Some e \<Longrightarrow> tr \<in> set (pending_queue e) \<Longrightarrow>
   RemovePendingTransaction_doomed (ks1 @ k # ks2) tr c =
     Some (True, store_entry k (e\<lparr>pending_queue := remove1 tr (pending_queue e)\<rparr>) c)"
  by (induction ks1) (auto simp add: RemovePendingTransactionFromEntry_def)

lemma erase_matching_first:
  "\<forall>y \<in> set ys. wi_trans y \<noteq> Some tr \<Longrightarrow> wi_trans z = Some tr \<Longrightarrow>
   erase_matching tr (ys @ z # zs) = Some (ys @ zs)"
  by (induction ys) auto

lemma erase_matching_None:
  "erase_matching tr items = None \<longleftrightarrow> (\<forall>y \<in> set items. wi_trans y \<noteq> Some tr)"
  by (induction items) auto

lemma RemovePendingTransactionFromEntry_effect:
  "entries c entry = Some e \<Longrightarrow>
   RemovePendingTransactionFromEntry entry tr c =
     (if tr \<in> set (pending_queue e)
      then Some (True, store_entry entry (e\<lparr>pending_queue := remove1 tr (pending_queue e)\<rparr>) c)
      else Some (False, c))"
  by (simp add: RemovePendingTransactionFromEntry_def)

lemma RemovePendingTransactionFromPendingOp_effect:
  "ops c p = Some po \<Longrightarrow> op_writer po = Some w \<Longrightarrow>
   RemovePendingTransactionFromPendingOp p tr c =
     (if wi_trans w = Some tr
      then Some (True, store_op p (po\<lparr>op_writer := Some (w\<lparr>wi_trans := None, wi_entry := None\<rparr>)\<rparr>) c)
      else case erase_matching tr (op_pending_queue po) of
             Some items \<Rightarrow> Some (True, store_op p (po\<lparr>op_pending_queue := items\<rparr>) c)
           | None \<Rightarrow> Some (False, c))"
  by (simp add: RemovePendingTransactionFromPendingOp_def)

text \<open>
  C6, as amended. \<^verbatim>\<open>RemovePendingTransaction\<close> searches, in this order: the pending queue
  of the active entry of the transaction's key; the backend-creation gate, while the
  backend is being built; the pending op of the transaction's key; the pending queues of
  the doomed entries, in the order of the set. The first place that holds the transaction
  decides: a queue loses the first occurrence of the transaction; a pending op whose lead
  item is the transaction's keeps the item as its lead, with the transaction and the entry
  slot of the item cleared, and a pending op whose lead is another's loses the first item
  of its queue that is the transaction's.
\<close>

theorem RemovePendingTransaction_search:
  "(map_of (active_entries c) (trans_key env tr) = Some entry \<and>
      RemovePendingTransactionFromEntry entry tr c = Some (True, c') \<longrightarrow>
      RemovePendingTransaction env tr c = Some c')
   \<and> (not_in_active_entry env tr c \<and> building_backend c \<and> map_of (pending_ops c) [] = Some p \<and>
        RemovePendingTransactionFromPendingOp p tr c = Some (True, c') \<longrightarrow>
        RemovePendingTransaction env tr c = Some c')
   \<and> (not_in_active_entry env tr c \<and> not_in_gate tr c \<and>
        map_of (pending_ops c) (trans_key env tr) = Some p \<and>
        RemovePendingTransactionFromPendingOp p tr c = Some (True, c') \<longrightarrow>
        RemovePendingTransaction env tr c = Some c')
   \<and> (not_in_active_entry env tr c \<and> not_in_gate tr c \<and> not_in_key_op env tr c \<and>
        RemovePendingTransaction_doomed (doomed_entries c) tr c = Some (True, c') \<longrightarrow>
        RemovePendingTransaction env tr c = Some c')
   \<and> (entries c entry = Some e \<longrightarrow>
        RemovePendingTransactionFromEntry entry tr c =
          (if tr \<in> set (pending_queue e)
           then Some (True, store_entry entry (e\<lparr>pending_queue := remove1 tr (pending_queue e)\<rparr>) c)
           else Some (False, c)))
   \<and> (ops c p = Some po \<and> op_writer po = Some w \<longrightarrow>
        RemovePendingTransactionFromPendingOp p tr c =
          (if wi_trans w = Some tr
           then Some (True, store_op p (po\<lparr>op_writer := Some (w\<lparr>wi_trans := None, wi_entry := None\<rparr>)\<rparr>) c)
           else case erase_matching tr (op_pending_queue po) of
                  Some items \<Rightarrow> Some (True, store_op p (po\<lparr>op_pending_queue := items\<rparr>) c)
                | None \<Rightarrow> Some (False, c)))
   \<and> ((\<forall>y \<in> set ys. wi_trans y \<noteq> Some tr) \<and> wi_trans z = Some tr \<longrightarrow>
        erase_matching tr (ys @ z # zs) = Some (ys @ zs))
   \<and> ((\<forall>y \<in> set ys. wi_trans y \<noteq> Some tr) \<longrightarrow> erase_matching tr ys = None)
   \<and> ((\<forall>j \<in> set ks1. \<exists>e'. entries c j = Some e' \<and> tr \<notin> set (pending_queue e')) \<and>
        entries c k = Some e \<and> tr \<in> set (pending_queue e) \<longrightarrow>
        RemovePendingTransaction_doomed (ks1 @ k # ks2) tr c =
          Some (True, store_entry k (e\<lparr>pending_queue := remove1 tr (pending_queue e)\<rparr>) c))"
proof (intro conjI impI; (elim conjE)?)
  show "RemovePendingTransaction env tr c = Some c'"
    if "map_of (active_entries c) (trans_key env tr) = Some entry"
      and "RemovePendingTransactionFromEntry entry tr c = Some (True, c')"
    using that by (rule RemovePendingTransaction_in_entry)
  show "RemovePendingTransaction env tr c = Some c'"
    if "not_in_active_entry env tr c" and "building_backend c"
      and "map_of (pending_ops c) [] = Some p"
      and "RemovePendingTransactionFromPendingOp p tr c = Some (True, c')"
    using that by (rule RemovePendingTransaction_in_gate)
  show "RemovePendingTransaction env tr c = Some c'"
    if "not_in_active_entry env tr c" and "not_in_gate tr c"
      and "map_of (pending_ops c) (trans_key env tr) = Some p"
      and "RemovePendingTransactionFromPendingOp p tr c = Some (True, c')"
    using that by (rule RemovePendingTransaction_in_key_op)
  show "RemovePendingTransaction env tr c = Some c'"
    if "not_in_active_entry env tr c" and "not_in_gate tr c" and "not_in_key_op env tr c"
      and "RemovePendingTransaction_doomed (doomed_entries c) tr c = Some (True, c')"
    using that by (rule RemovePendingTransaction_in_doomed)
qed (simp_all add: RemovePendingTransactionFromEntry_effect
    RemovePendingTransactionFromPendingOp_effect erase_matching_first erase_matching_None
    RemovePendingTransaction_doomed_first)

theorem RemovePendingTransaction_search_witness:
  "RemovePendingTransaction example_env 4 gate_cache =
     Some (store_op 0 (PendingOp_new\<lparr>
             op_writer := Some (WorkItem_backend WI_CREATE_BACKEND None None None)\<rparr>) gate_cache)
   \<and> RemovePendingTransaction example_env 5 gate_cache =
     Some (store_op 1 (PendingOp_new\<lparr>
             op_writer := Some (WorkItem_entry WI_OPEN_ENTRY None None),
             op_pending_queue := [WorkItem_entry WI_OPEN_ENTRY (Some 4) (Some 9)]\<rparr>) gate_cache)"
proof -
  let ?g = "PendingOp_new\<lparr>
       op_writer := Some (WorkItem_backend WI_CREATE_BACKEND None None None),
       op_pending_queue := [WorkItem_backend WI_CREATE_BACKEND (Some 4) None None]\<rparr>"
  let ?k = "PendingOp_new\<lparr>
       op_writer := Some (WorkItem_entry WI_OPEN_ENTRY (Some 5) (Some 8)),
       op_pending_queue := [WorkItem_entry WI_OPEN_ENTRY (Some 4) (Some 9)]\<rparr>"
  have g: "ops gate_cache 0 = Some ?g" and k: "ops gate_cache 1 = Some ?k"
    by (simp_all add: gate_cache_def)
  have a: "not_in_active_entry example_env tr gate_cache" for tr
    by (simp add: not_in_active_entry_def gate_cache_def HttpCache_new_def)
  have g4: "RemovePendingTransactionFromPendingOp 0 4 gate_cache =
      Some (True, store_op 0 (PendingOp_new\<lparr>
             op_writer := Some (WorkItem_backend WI_CREATE_BACKEND None None None)\<rparr>) gate_cache)"
    using RemovePendingTransaction_search [of gate_cache example_env 4 _ _ 0 _ ?g
        "WorkItem_backend WI_CREATE_BACKEND None None None"] g
    by (simp add: PendingOp_new_def WorkItem_backend_def)
  have g5: "RemovePendingTransactionFromPendingOp 0 5 gate_cache = Some (False, gate_cache)"
    using RemovePendingTransaction_search [of gate_cache example_env 5 _ _ 0 _ ?g
        "WorkItem_backend WI_CREATE_BACKEND None None None"] g
    by (simp add: PendingOp_new_def WorkItem_backend_def)
  have k5: "RemovePendingTransactionFromPendingOp 1 5 gate_cache =
      Some (True, store_op 1 (PendingOp_new\<lparr>
             op_writer := Some (WorkItem_entry WI_OPEN_ENTRY None None),
             op_pending_queue := [WorkItem_entry WI_OPEN_ENTRY (Some 4) (Some 9)]\<rparr>) gate_cache)"
    using RemovePendingTransaction_search [of gate_cache example_env 5 _ _ 1 _ ?k
        "WorkItem_entry WI_OPEN_ENTRY (Some 5) (Some 8)"] k
    by (simp add: PendingOp_new_def WorkItem_entry_def)
  have n5: "not_in_gate 5 gate_cache"
    using g5 by (simp add: not_in_gate_def gate_cache_def)
  have "RemovePendingTransaction example_env 4 gate_cache =
     Some (store_op 0 (PendingOp_new\<lparr>
             op_writer := Some (WorkItem_backend WI_CREATE_BACKEND None None None)\<rparr>) gate_cache)"
    using RemovePendingTransaction_search [of gate_cache example_env 4 _ _ 0] a g4
    by (simp add: gate_cache_def)
  moreover have "RemovePendingTransaction example_env 5 gate_cache =
     Some (store_op 1 (PendingOp_new\<lparr>
             op_writer := Some (WorkItem_entry WI_OPEN_ENTRY None None),
             op_pending_queue := [WorkItem_entry WI_OPEN_ENTRY (Some 4) (Some 9)]\<rparr>) gate_cache)"
    using RemovePendingTransaction_search [of gate_cache example_env 5 _ _ 1] a n5 k5
    by (simp add: gate_cache_def example_env_def)
  ultimately show ?thesis by blast
qed

text \<open>
  C6 as stated fails: for a transaction that waits both in the gate and in the pending op
  of its key, \<^verbatim>\<open>RemovePendingTransaction\<close> takes it out of the gate and leaves the pending
  op of the key as it is; the order of the specification would do the opposite.
\<close>

theorem RemovePendingTransaction_order_counterexample:
  "queue_of 0 (RemovePendingTransaction example_env 4 gate_cache) = Some []
   \<and> queue_of 1 (RemovePendingTransaction example_env 4 gate_cache) =
       Some [WorkItem_entry WI_OPEN_ENTRY (Some 4) (Some 9)]
   \<and> queue_of 0 (RemovePendingTransaction_spec_order example_env 4 gate_cache) =
       Some [WorkItem_backend WI_CREATE_BACKEND (Some 4) None None]
   \<and> queue_of 1 (RemovePendingTransaction_spec_order example_env 4 gate_cache) = Some []"
  by (simp add: queue_of_def RemovePendingTransaction_def RemovePendingTransaction_spec_order_def
      gate_cache_def HttpCache_new_def example_env_def RemovePendingTransactionFromPendingOp_def
      PendingOp_new_def WorkItem_backend_def WorkItem_entry_def store_op_def)

subsection \<open>Cache keys\<close>

declare nat_to_string.simps [simp del]

lemma string_to_nat_snoc: "string_to_nat (s @ [ch]) = 10 * string_to_nat s + (of_char ch - 48)"
  by (simp add: string_to_nat_def)

lemma string_to_nat_nat_to_string: "string_to_nat (nat_to_string n) = n"
proof (induction n rule: nat_to_string.induct)
  case (1 n)
  show ?case
  proof (cases "n < 10")
    case True
    then show ?thesis
      by (subst nat_to_string.simps) (simp add: string_to_nat_def)
  next
    case False
    have "n mod 10 < 10" by simp
    then have "(48 + n mod 10) mod 256 = 48 + n mod 10" by simp
    with False 1 show ?thesis
      by (subst nat_to_string.simps) (simp add: string_to_nat_snoc)
  qed
qed

lemma nat_to_string_inj: "nat_to_string i = nat_to_string j \<Longrightarrow> i = j"
  by (metis string_to_nat_nat_to_string)

lemma IntToString_nonneg: "0 \<le> i \<Longrightarrow> IntToString i = nat_to_string (nat i)"
  by (simp add: IntToString_def)

lemma generation_of_update [simp]:
  "generation_of u (c\<lparr>playback_cache_map := Some (assign_key u g m)\<rparr>) = g"
  by (simp add: generation_of_def)

lemma GenerateCacheKey_playback_eq:
  assumes "cache_mode c = RECORD \<or> cache_mode c = PLAYBACK"
    and "generation_of (spec_for_request env (req_url request)) c < INT_MAX"
  shows "GenerateCacheKey env request c =
            Some (IntToString (generation_of (spec_for_request env (req_url request)) c) @
                    req_method request @ spec_for_request env (req_url request),
                  c\<lparr>playback_cache_map :=
                      Some (assign_key (spec_for_request env (req_url request))
                              (generation_of (spec_for_request env (req_url request)) c + 1)
                              (case playback_cache_map c of None \<Rightarrow> [] | Some m \<Rightarrow> m))\<rparr>)"
  using assms
  by (auto simp add: GenerateCacheKey_def generation_of_def Let_def split: option.splits)

lemma GenerateCacheKey_playback:
  assumes "cache_mode c = RECORD \<or> cache_mode c = PLAYBACK"
    and "generation_of (spec_for_request env (req_url request)) c < INT_MAX"
  shows "\<exists>c'. GenerateCacheKey env request c =
            Some (IntToString (generation_of (spec_for_request env (req_url request)) c) @
                    req_method request @ spec_for_request env (req_url request), c')
          \<and> cache_mode c' = cache_mode c
          \<and> generation_of (spec_for_request env (req_url request)) c' =
              generation_of (spec_for_request env (req_url request)) c + 1"
  by (simp add: GenerateCacheKey_playback_eq [OF assms])

lemma GenerateCacheKeys_from:
  assumes "cache_mode c = RECORD \<or> cache_mode c = PLAYBACK"
    and "generation_of (spec_for_request env (req_url request)) c = g"
    and "g + int n \<le> INT_MAX"
  shows "\<exists>c'. GenerateCacheKeys env request n c =
            Some (map (\<lambda>i. IntToString (g + int i) @ req_method request @
                            spec_for_request env (req_url request)) [0..<n], c')"
  using assms
proof (induction n arbitrary: c g)
  case 0
  then show ?case by simp
next
  case (Suc n)
  let ?u = "spec_for_request env (req_url request)"
  from Suc.prems have "generation_of ?u c < INT_MAX" by simp
  from GenerateCacheKey_playback [OF Suc.prems(1) this] Suc.prems(2)
  obtain c1 where c1: "GenerateCacheKey env request c =
        Some (IntToString g @ req_method request @ ?u, c1)"
    "cache_mode c1 = cache_mode c" "generation_of ?u c1 = g + 1"
    by auto
  from Suc.prems c1 have "cache_mode c1 = RECORD \<or> cache_mode c1 = PLAYBACK"
    and "g + 1 + int n \<le> INT_MAX" by auto
  from Suc.IH [OF this(1) c1(3) this(2)]
  obtain c2 where "GenerateCacheKeys env request n c1 =
        Some (map (\<lambda>i. IntToString (g + 1 + int i) @ req_method request @ ?u) [0..<n], c2)"
    by blast
  with c1 show ?case
    by (simp add: map_upt_Suc del: upt_Suc) (simp add: add.commute add.left_commute)
qed

text \<open>
  C9. In mode \<^verbatim>\<open>RECORD\<close> or \<^verbatim>\<open>PLAYBACK\<close> the key is the decimal generation of the URL,
  then the method, then the canonical URL, and the computation increments the generation
  of the URL. So \<open>n\<close> successive computations for one request, from a cache that has
  computed no key for the URL, give the keys with generations \<open>0, \<dots>, n - 1\<close> in order,
  and the keys are distinct. The generation is an \<^verbatim>\<open>int\<close>: the statement is for
  generations up to \<^verbatim>\<open>INT_MAX\<close>.
\<close>

theorem GenerateCacheKey_generations:
  assumes "cache_mode c = RECORD \<or> cache_mode c = PLAYBACK"
  shows "(generation_of (spec_for_request env (req_url request)) c < INT_MAX \<longrightarrow>
            (\<exists>c'. GenerateCacheKey env request c =
                Some (IntToString (generation_of (spec_for_request env (req_url request)) c) @
                        req_method request @ spec_for_request env (req_url request), c')
              \<and> cache_mode c' = cache_mode c
              \<and> generation_of (spec_for_request env (req_url request)) c' =
                  generation_of (spec_for_request env (req_url request)) c + 1))
       \<and> (generation_of (spec_for_request env (req_url request)) c = 0 \<and> int n \<le> INT_MAX \<longrightarrow>
            (\<exists>c'. GenerateCacheKeys env request n c =
                Some (map (\<lambda>i. IntToString (int i) @ req_method request @
                                spec_for_request env (req_url request)) [0..<n], c'))
            \<and> distinct (map (\<lambda>i. IntToString (int i) @ req_method request @
                                spec_for_request env (req_url request)) [0..<n]))"
proof (intro conjI impI)
  assume "generation_of (spec_for_request env (req_url request)) c < INT_MAX"
  from GenerateCacheKey_playback [OF assms this]
  show "\<exists>c'. GenerateCacheKey env request c =
                Some (IntToString (generation_of (spec_for_request env (req_url request)) c) @
                        req_method request @ spec_for_request env (req_url request), c')
              \<and> cache_mode c' = cache_mode c
              \<and> generation_of (spec_for_request env (req_url request)) c' =
                  generation_of (spec_for_request env (req_url request)) c + 1" .
next
  assume h: "generation_of (spec_for_request env (req_url request)) c = 0 \<and> int n \<le> INT_MAX"
  with GenerateCacheKeys_from [OF assms, of env request 0 n]
  show "\<exists>c'. GenerateCacheKeys env request n c =
                Some (map (\<lambda>i. IntToString (int i) @ req_method request @
                                spec_for_request env (req_url request)) [0..<n], c')"
    by simp
next
  have "inj_on (\<lambda>i. IntToString (int i) @ req_method request @
                            spec_for_request env (req_url request)) (set [0..<n])"
    by (rule inj_onI) (auto simp add: IntToString_nonneg dest: nat_to_string_inj)
  then show "distinct (map (\<lambda>i. IntToString (int i) @ req_method request @
                            spec_for_request env (req_url request)) [0..<n])"
    by (simp add: distinct_map)
qed

theorem GenerateCacheKey_generations_witness:
  "(\<exists>c'. GenerateCacheKeys example_env example_request 3
            ((HttpCache_new None)\<lparr>cache_mode := RECORD\<rparr>) =
          Some ([''0GETu'', ''1GETu'', ''2GETu''], c'))
   \<and> distinct [''0GETu'', ''1GETu'', ''2GETu'']"
proof -
  let ?c = "(HttpCache_new None)\<lparr>cache_mode := RECORD\<rparr>"
  have m: "cache_mode ?c = RECORD \<or> cache_mode ?c = PLAYBACK" by simp
  have g: "generation_of (spec_for_request example_env (req_url example_request)) ?c = 0
      \<and> int 3 \<le> INT_MAX"
    by (simp add: generation_of_def HttpCache_new_def INT_MAX_def)
  have k: "map (\<lambda>i. IntToString (int i) @ req_method example_request @
                  spec_for_request example_env (req_url example_request)) [0..<3] =
           [''0GETu'', ''1GETu'', ''2GETu'']"
    by code_simp
  from GenerateCacheKey_generations [OF m, of example_env example_request 3] g
  show ?thesis unfolding k by blast
qed

subsection \<open>Completion of a pending op\<close>



lemma io_callbacks_append: "io_callbacks (xs @ ys) = io_callbacks xs @ io_callbacks ys"
  by (induction xs rule: io_callbacks.induct) simp_all

lemma active_entries_live_updates [simp]:
  "active_entries_live (c\<lparr>log := l\<rparr>) = active_entries_live c"
  "active_entries_live (c\<lparr>entry_out := eo\<rparr>) = active_entries_live c"
  "active_entries_live (emit ev c) = active_entries_live c"
  by (simp_all add: active_entries_live_def emit_def)




lemma erase_key_snd:
  "distinct (map snd m) \<Longrightarrow> map_of m k = Some p \<Longrightarrow> p \<notin> snd ` set (erase_key k m)"
proof (induction m)
  case Nil
  then show ?case by simp
next
  case (Cons kv m)
  show ?case
  proof (cases "fst kv = k")
    case True
    with Cons.prems have "snd kv = p" by (cases kv) simp
    with Cons.prems(1) have "p \<notin> snd ` set m" by auto
    moreover have "set (erase_key k m) \<subseteq> set m" by (auto simp add: erase_key_def)
    ultimately show ?thesis using True by (auto simp add: erase_key_def)
  next
    case False
    with Cons.prems have m: "map_of m k = Some p" by (cases kv) (simp split: if_splits)
    then have "p \<in> snd ` set m" by (metis map_of_SomeD image_eqI snd_conv)
    with Cons.prems(1) have "snd kv \<noteq> p" by auto
    moreover from Cons.IH Cons.prems(1) m have "p \<notin> snd ` set (erase_key k m)" by simp
    ultimately show ?thesis using False by (auto simp add: erase_key_def)
  qed
qed

lemma erase_ptr_snd: "distinct (map snd m) \<Longrightarrow> p \<notin> snd ` set (erase_ptr p m)"
  by (induction m) auto

lemma DeletePendingOp_unregisters:
  assumes "ops c p = Some po" and "op_pending_queue po = []"
    and "distinct (map snd (pending_ops c))" and "map_of (pending_ops c) k = Some p"
    and "\<forall>d. op_disk_entry po = Some d \<longrightarrow> get_key env d = k"
  shows "\<exists>c'. DeletePendingOp env p c = Some c' \<and> p \<notin> snd ` set (pending_ops c') \<and>
           ops c' p = None \<and> log c' = log c \<and> next_ptr c' = next_ptr c \<and>
           entries c' = entries c \<and> active_entries c' = active_entries c"
proof (cases "op_disk_entry po")
  case None
  with assms show ?thesis
    by (simp add: DeletePendingOp_def erase_ptr_snd)
next
  case (Some d)
  with assms have k: "get_key env d = k" by simp
  show ?thesis
  proof (cases "k = []")
    case True
    with assms Some k show ?thesis
      by (simp add: DeletePendingOp_def erase_ptr_snd)
  next
    case False
    with assms Some k show ?thesis
      by (simp add: DeletePendingOp_def erase_key_snd)
  qed
qed


lemma DeletePendingOp_unregistersD:
  assumes "DeletePendingOp env p c = Some c'"
    and "ops c p = Some po" and "op_pending_queue po = []"
    and "distinct (map snd (pending_ops c))" and "map_of (pending_ops c) k = Some p"
    and "\<forall>d. op_disk_entry po = Some d \<longrightarrow> get_key env d = k"
  shows "p \<notin> snd ` set (pending_ops c') \<and>
           ops c' p = None \<and> log c' = log c \<and> next_ptr c' = next_ptr c \<and>
           entries c' = entries c \<and> active_entries c' = active_entries c"
  using DeletePendingOp_unregisters [OF assms(2-6)] assms(1) by auto

lemma DeletePendingOp_stored:
  assumes "DeletePendingOp env p (c0\<lparr>ops := m\<rparr>) = Some c1"
    and "m p = Some po1" and "op_pending_queue po1 = []"
    and "distinct (map snd (pending_ops c0))" and "map_of (pending_ops c0) k = Some p"
    and "\<forall>d. op_disk_entry po1 = Some d \<longrightarrow> get_key env d = k"
  shows "p \<notin> snd ` set (pending_ops c1) \<and> ops c1 p = None \<and> log c1 = log c0 \<and>
         next_ptr c1 = next_ptr c0"
  using DeletePendingOp_unregistersD [OF assms(1), of po1 k] assms(2-6) by simp

lemma OnIOComplete_prepare_result:
  assumes "ops c p = Some po" and "op_writer po = Some lead"
    and "distinct (map snd (pending_ops c))" and "map_of (pending_ops c) k = Some p"
    and "\<forall>d. op_disk_entry po = Some d \<longrightarrow> get_key env d = k"
    and "OnIOComplete_prepare env r p c = Some (item, fail, entry, kk, items, c1)"
  shows "item = lead \<and> items = op_pending_queue po \<and> p \<notin> snd ` set (pending_ops c1) \<and>
         ops c1 p = None \<and> io_callbacks (log c1) = io_callbacks (log c) \<and>
         next_ptr c \<le> next_ptr c1 \<and> (r \<noteq> OK \<longrightarrow> entry = None)"
proof -
  note defs = OnIOComplete_prepare_def Let_def ActivateEntry_def emit_def store_op_def
  consider (failed) "r \<noteq> OK" | (doom) "r = OK" "wi_operation lead = WI_DOOM_ENTRY"
    | (activated) "r = OK" "wi_operation lead \<noteq> WI_DOOM_ENTRY" "IsValid lead"
    | (gone) "r = OK" "wi_operation lead \<noteq> WI_DOOM_ENTRY" "\<not> IsValid lead"
    by blast
  then show ?thesis
  proof cases
    case failed
    with assms(1,2,6) have
      d: "DeletePendingOp env p (c\<lparr>ops := (ops c)(p \<mapsto> po\<lparr>op_pending_queue := []\<rparr>)\<rparr>) = Some c1"
      and r: "item = lead" "items = op_pending_queue po" "entry = None"
      by (auto simp add: defs split: bind_splits)
    from DeletePendingOp_stored [OF d, of _ k] assms(3,4,5) r show ?thesis by simp
  next
    case doom
    with assms(1,2,6) have
      d: "DeletePendingOp env p (c\<lparr>ops := (ops c)(p \<mapsto> po\<lparr>op_pending_queue := []\<rparr>)\<rparr>) = Some c1"
      and r: "item = lead" "items = op_pending_queue po"
      by (auto simp add: defs split: bind_splits)
    from DeletePendingOp_stored [OF d, of _ k] assms(3,4,5) r doom show ?thesis by simp
  next
    case activated
    with assms(1,2,6) obtain x where
      d: "DeletePendingOp env p
            (c\<lparr>entries := (entries c)(next_ptr c \<mapsto> ActiveEntry_new x),
               active_entries := assign_key (get_key env x) (next_ptr c) (active_entries c),
               next_ptr := Suc (next_ptr c),
               ops := (ops c)(p \<mapsto> po\<lparr>op_pending_queue := []\<rparr>)\<rparr>) = Some c1"
      and r: "item = lead" "items = op_pending_queue po"
      by (auto simp add: defs split: bind_splits)
    from DeletePendingOp_stored [OF d, of _ k] assms(3,4,5) r activated show ?thesis by simp
  next
    case gone
    with assms(1,2,6) obtain evs where
      d: "DeletePendingOp env p
            (c\<lparr>log := log c @ evs,
               ops := (ops c)(p \<mapsto> po\<lparr>op_disk_entry := None, op_pending_queue := []\<rparr>)\<rparr>) = Some c1"
      and r: "item = lead" "items = op_pending_queue po" "io_callbacks evs = []"
      by (auto simp add: defs split: bind_splits if_splits)
    from DeletePendingOp_stored [OF d, of _ k] assms(3,4,5) r gone show ?thesis
      by (simp add: io_callbacks_append)
  qed
qed


lemma OnIOComplete_prepare_total:
  assumes "ops c p = Some po" and "op_writer po = Some lead"
    and "distinct (map snd (pending_ops c))" and "map_of (pending_ops c) k = Some p"
    and "\<forall>d. op_disk_entry po = Some d \<longrightarrow> get_key env d = k"
    and "FindActiveEntry k c = None"
    and "r = OK \<and> wi_operation lead \<noteq> WI_DOOM_ENTRY \<longrightarrow> op_disk_entry po \<noteq> None"
  shows "\<exists>res. OnIOComplete_prepare env r p c = Some res"
proof -
  note defs = OnIOComplete_prepare_def Let_def ActivateEntry_def emit_def store_op_def
  have del: "\<exists>c'. DeletePendingOp env p (c0\<lparr>ops := (ops c)(p \<mapsto> po1)\<rparr>) = Some c'"
    if "pending_ops c0 = pending_ops c" and "op_pending_queue po1 = []"
      and "op_disk_entry po1 = None \<or> op_disk_entry po1 = op_disk_entry po" for c0 po1
    using DeletePendingOp_unregisters [of "c0\<lparr>ops := (ops c)(p \<mapsto> po1)\<rparr>" p po1 k env]
      that assms(3,4,5)
    by auto
  consider (failed) "r \<noteq> OK" | (doom) "r = OK" "wi_operation lead = WI_DOOM_ENTRY"
    | (activated) "r = OK" "wi_operation lead \<noteq> WI_DOOM_ENTRY" "IsValid lead"
    | (gone) "r = OK" "wi_operation lead \<noteq> WI_DOOM_ENTRY" "\<not> IsValid lead"
    by blast
  then show ?thesis
  proof cases
    case failed
    from del [of c "po\<lparr>op_pending_queue := []\<rparr>"] failed assms(1,2) show ?thesis
      by (auto simp add: defs)
  next
    case doom
    from del [of c "po\<lparr>op_pending_queue := []\<rparr>"] doom assms(1,2) show ?thesis
      by (auto simp add: defs)
  next
    case activated
    with assms(7) obtain x where x: "op_disk_entry po = Some x" by auto
    with assms(5,6) have f: "FindActiveEntry (get_key env x) c = None" by simp
    from del [of "c\<lparr>entries := (entries c)(next_ptr c \<mapsto> ActiveEntry_new x),
               active_entries := assign_key (get_key env x) (next_ptr c) (active_entries c),
               next_ptr := Suc (next_ptr c)\<rparr>" "po\<lparr>op_pending_queue := []\<rparr>"]
      activated assms(1,2) x f
    show ?thesis by (auto simp add: defs)
  next
    case gone
    with assms(7) obtain x where x: "op_disk_entry po = Some x" by auto
    show ?thesis
    proof (cases "wi_operation lead = WI_CREATE_ENTRY")
      case True
      from del [of "c\<lparr>log := log c @ [DiskDoom x, DiskClose x]\<rparr>"
          "po\<lparr>op_disk_entry := None, op_pending_queue := []\<rparr>"] gone assms(1,2) x True
      show ?thesis by (auto simp add: defs)
    next
      case False
      from del [of "c\<lparr>log := log c @ [DiskClose x]\<rparr>"
          "po\<lparr>op_disk_entry := None, op_pending_queue := []\<rparr>"] gone assms(1,2) x False
      show ?thesis by (auto simp add: defs)
    qed
  qed
qed

lemma GetPendingOp_other:
  assumes "p \<notin> snd ` set (pending_ops c')" and "p < next_ptr c'"
    and "GetPendingOp k' c' = Some (q, c'')"
  shows "q \<noteq> p \<and> p \<notin> snd ` set (pending_ops c'') \<and> p < next_ptr c''"
proof (cases "map_of (pending_ops c') k'")
  case None
  with assms have "q = next_ptr c'"
    and "pending_ops c'' = assign_key k' (next_ptr c') (pending_ops c')"
    and "next_ptr c'' = Suc (next_ptr c')"
    by (auto simp add: GetPendingOp_def Let_def split: bind_splits)
  with assms(1,2) show ?thesis
    by (auto simp add: assign_key_def erase_key_def)
next
  case (Some q')
  with assms have "q = q'" and "c'' = c'"
    by (auto simp add: GetPendingOp_def split: bind_splits)
  moreover from Some have "q' \<in> snd ` set (pending_ops c')"
    by (metis map_of_SomeD image_eqI snd_conv)
  ultimately show ?thesis using assms(1,2) by auto
qed

text \<open>
  C4. When the backend call of a pending op other than the creation of the backend
  completes, the first half of \<^verbatim>\<open>OnIOComplete\<close> returns the queue of the op as the local
  list, in a cache where the op is in no pair of the table and is deleted, and where no
  callback has run; every notification of \<^verbatim>\<open>OnIOComplete\<close> is made from that cache on.
  From a cache where the op is not in the table, \<^verbatim>\<open>GetPendingOp\<close> returns another op,
  and the op stays out of the table: a request made from a callback is not appended to the
  completing op. The hypotheses: no op is registered twice, the op is registered under the
  key its disk entry reports, the key has no active entry, and a successful open or create
  produced a disk entry.
\<close>

theorem OnIOComplete_deletes_before_notifying:
  assumes "ops c p = Some po" and "op_writer po = Some lead"
    and "wi_operation lead \<noteq> WI_CREATE_BACKEND"
    and "distinct (map snd (pending_ops c))" and "map_of (pending_ops c) k = Some p"
    and "\<forall>d. op_disk_entry po = Some d \<longrightarrow> get_key env d = k"
    and "FindActiveEntry k c = None"
    and "r = OK \<and> wi_operation lead \<noteq> WI_DOOM_ENTRY \<longrightarrow> op_disk_entry po \<noteq> None"
  shows "\<exists>fail entry kk c1.
           OnIOComplete_prepare env r p c = Some (lead, fail, entry, kk, op_pending_queue po, c1)
         \<and> p \<notin> snd ` set (pending_ops c1) \<and> ops c1 p = None
         \<and> io_callbacks (log c1) = io_callbacks (log c)
         \<and> (p < next_ptr c \<longrightarrow> p < next_ptr c1)
         \<and> OnIOComplete env r p c =
             NotifyTransaction env lead r entry c1 \<bind>
             OnIOComplete_loop env r (wi_operation lead) kk (op_pending_queue po) fail entry
         \<and> (\<forall>k' q c' c''. p \<notin> snd ` set (pending_ops c') \<and> p < next_ptr c' \<and>
                GetPendingOp k' c' = Some (q, c'') \<longrightarrow>
                q \<noteq> p \<and> p \<notin> snd ` set (pending_ops c'') \<and> p < next_ptr c'')"
proof -
  from OnIOComplete_prepare_total [OF assms(1,2,4,5,6,7,8)]
  obtain item fail entry kk items c1 where
    pr: "OnIOComplete_prepare env r p c = Some (item, fail, entry, kk, items, c1)"
    by (metis prod_cases3)
  from OnIOComplete_prepare_result [OF assms(1,2,4,5,6) pr]
  have res: "item = lead" "items = op_pending_queue po" "p \<notin> snd ` set (pending_ops c1)"
    "ops c1 p = None" "io_callbacks (log c1) = io_callbacks (log c)" "next_ptr c \<le> next_ptr c1"
    by simp_all
  from assms(1,2,3) pr res(1,2)
  have "OnIOComplete env r p c =
          NotifyTransaction env lead r entry c1 \<bind>
          OnIOComplete_loop env r (wi_operation lead) kk (op_pending_queue po) fail entry"
    by (simp add: OnIOComplete_def)
  moreover have "\<forall>k' q c' c''. p \<notin> snd ` set (pending_ops c') \<and> p < next_ptr c' \<and>
                GetPendingOp k' c' = Some (q, c'') \<longrightarrow>
                q \<noteq> p \<and> p \<notin> snd ` set (pending_ops c'') \<and> p < next_ptr c''"
    using GetPendingOp_other by blast
  moreover have "p < next_ptr c \<longrightarrow> p < next_ptr c1"
    using res(6) by simp
  moreover have "OnIOComplete_prepare env r p c =
      Some (lead, fail, entry, kk, op_pending_queue po, c1)"
    using pr res(1,2) by simp
  ultimately show ?thesis
    using res(3,4,5)
    by (intro exI [of _ fail] exI [of _ entry] exI [of _ kk] exI [of _ c1] conjI)
qed

theorem OnIOComplete_deletes_before_notifying_witness:
  "\<exists>fail entry kk c1.
      OnIOComplete_prepare example_env ERR_FAILED 1 gate_cache =
        Some (WorkItem_entry WI_OPEN_ENTRY (Some 5) (Some 8), fail, entry, kk,
              [WorkItem_entry WI_OPEN_ENTRY (Some 4) (Some 9)], c1)
    \<and> 1 \<notin> snd ` set (pending_ops c1) \<and> ops c1 1 = None \<and> io_callbacks (log c1) = []
    \<and> 1 < next_ptr c1"
proof -
  let ?po = "PendingOp_new\<lparr>
       op_writer := Some (WorkItem_entry WI_OPEN_ENTRY (Some 5) (Some 8)),
       op_pending_queue := [WorkItem_entry WI_OPEN_ENTRY (Some 4) (Some 9)]\<rparr>"
  have a: "ops gate_cache 1 = Some ?po"
    and b: "op_writer ?po = Some (WorkItem_entry WI_OPEN_ENTRY (Some 5) (Some 8))"
    and c: "wi_operation (WorkItem_entry WI_OPEN_ENTRY (Some 5) (Some 8)) \<noteq> WI_CREATE_BACKEND"
    and d: "distinct (map snd (pending_ops gate_cache))"
    and e: "map_of (pending_ops gate_cache) ''k'' = Some 1"
    and f: "\<forall>d. op_disk_entry ?po = Some d \<longrightarrow> get_key example_env d = ''k''"
    and g: "FindActiveEntry ''k'' gate_cache = None"
    and h: "ERR_FAILED = OK \<and>
        wi_operation (WorkItem_entry WI_OPEN_ENTRY (Some 5) (Some 8)) \<noteq> WI_DOOM_ENTRY \<longrightarrow>
        op_disk_entry ?po \<noteq> None"
    by (simp_all add: gate_cache_def PendingOp_new_def WorkItem_entry_def FindActiveEntry_def
        HttpCache_new_def)
  from OnIOComplete_deletes_before_notifying [OF a b c d e f g h]
  show ?thesis
    by (auto simp add: gate_cache_def HttpCache_new_def)
qed

subsection \<open>The completion protocol as a whole\<close>
















lemma active_entries_live_frame [simp]:
  "active_entries_live (PostTask t c) = active_entries_live c"
  "active_entries_live (store_op p po c) = active_entries_live c"
  "active_entries_live (c\<lparr>ops := om\<rparr>) = active_entries_live c"
  "active_entries_live (c\<lparr>pending_ops := pops\<rparr>) = active_entries_live c"
  "active_entries_live (c\<lparr>next_ptr := n\<rparr>) = active_entries_live c"
  "active_entries_live (c\<lparr>doomed_entries := de\<rparr>) = active_entries_live c"
  by (simp_all add: active_entries_live_def PostTask_def store_op_def)






lemma callbacks_keep_example_env: "callbacks_keep P example_env"
  by (simp add: callbacks_keep_def example_env_def)




subsection \<open>The reader and writer discipline\<close>

lemma DCHECK_iff [simp]: "DCHECK b = Some u \<longleftrightarrow> b" "DCHECK b = None \<longleftrightarrow> \<not> b"
  by (simp_all add: DCHECK_def)

lemma projections [simp]:
  "entries (store_entry entry e c) = (entries c)(entry \<mapsto> e)"
  "entries (emit ev c) = entries c"
  "entries (PostTask t c) = entries c"
  "entries (store_op p po c) = entries c"
  by (simp_all add: store_entry_def emit_def PostTask_def store_op_def)

lemma invariant_A_frame [simp]:
  "invariant_A (emit ev c) = invariant_A c"
  "invariant_A (PostTask t c) = invariant_A c"
  "invariant_A (store_op p po c) = invariant_A c"
  "invariant_A (c\<lparr>log := l\<rparr>) = invariant_A c"
  "invariant_A (c\<lparr>tasks := ts\<rparr>) = invariant_A c"
  "invariant_A (c\<lparr>active_entries := ae\<rparr>) = invariant_A c"
  "invariant_A (c\<lparr>doomed_entries := de\<rparr>) = invariant_A c"
  "invariant_A (c\<lparr>pending_ops := pops\<rparr>) = invariant_A c"
  "invariant_A (c\<lparr>ops := om\<rparr>) = invariant_A c"
  "invariant_A (c\<lparr>next_ptr := n\<rparr>) = invariant_A c"
  "invariant_A (c\<lparr>entry_out := eo\<rparr>) = invariant_A c"
  "invariant_A (c\<lparr>backend_out := bo\<rparr>) = invariant_A c"
  "invariant_A (c\<lparr>disk_cache := dc\<rparr>) = invariant_A c"
  "invariant_A (c\<lparr>backend_factory := bf\<rparr>) = invariant_A c"
  "invariant_A (c\<lparr>building_backend := bb\<rparr>) = invariant_A c"
  "invariant_A (c\<lparr>playback_cache_map := pm\<rparr>) = invariant_A c"
  "invariant_A (c\<lparr>entries := m\<rparr>) = no_readers_beside_writer m"
  "invariant_A (store_entry entry e c) = no_readers_beside_writer ((entries c)(entry \<mapsto> e))"
  by (simp_all add: invariant_A_def)

lemma invariant_A_upd:
  "invariant_A c \<Longrightarrow> (writer e \<noteq> None \<longrightarrow> readers e = []) \<Longrightarrow>
   no_readers_beside_writer ((entries c)(entry \<mapsto> e))"
  by (simp add: invariant_A_def no_readers_beside_writer_def)

lemma invariant_A_del:
  "invariant_A c \<Longrightarrow> no_readers_beside_writer ((entries c)(entry := None))"
  by (simp add: invariant_A_def no_readers_beside_writer_def)

lemma invariant_A_entryD:
  "invariant_A c \<Longrightarrow> entries c entry = Some e \<Longrightarrow> writer e = Some tr \<Longrightarrow> readers e = []"
  by (auto simp add: invariant_A_def no_readers_beside_writer_def)

lemma invariant_A_callback:
  "callbacks_keep invariant_A env \<Longrightarrow> invariant_A c \<Longrightarrow>
   invariant_A (run_io_callback env tr r c) \<and> invariant_A (run_user_callback env cb r c)"
  by (simp add: callbacks_keep_def run_io_callback_def run_user_callback_def)

lemma invariant_A_fold_callbacks:
  "callbacks_keep invariant_A env \<Longrightarrow> invariant_A c \<Longrightarrow>
   invariant_A (fold (\<lambda>tr. run_io_callback env tr r) q c)"
  by (induction q arbitrary: c) (simp_all add: invariant_A_callback)

lemma delete_entry_invariant_A:
  "delete_entry entry c = Some c' \<Longrightarrow> invariant_A c \<Longrightarrow> invariant_A c'"
  by (auto simp add: delete_entry_def split: bind_splits option.splits intro!: invariant_A_del)

lemma FinalizeDoomedEntry_invariant_A:
  "FinalizeDoomedEntry entry c = Some c' \<Longrightarrow> invariant_A c \<Longrightarrow> invariant_A c'"
  by (auto simp add: FinalizeDoomedEntry_def split: bind_splits dest: delete_entry_invariant_A)

lemma SlowDeactivateEntry_invariant_A:
  "SlowDeactivateEntry entry c = Some c' \<Longrightarrow> invariant_A c \<Longrightarrow> invariant_A c'"
  by (auto simp add: SlowDeactivateEntry_def split: if_splits dest: delete_entry_invariant_A)

lemma DeactivateEntry_invariant_A:
  "DeactivateEntry env entry c = Some c' \<Longrightarrow> invariant_A c \<Longrightarrow> invariant_A c'"
  by (auto simp add: DeactivateEntry_def Let_def split: bind_splits if_splits
      dest: delete_entry_invariant_A SlowDeactivateEntry_invariant_A)

lemma DestroyEntry_invariant_A:
  "DestroyEntry env entry c = Some c' \<Longrightarrow> invariant_A c \<Longrightarrow> invariant_A c'"
  by (auto simp add: DestroyEntry_def split: bind_splits if_splits
      dest: FinalizeDoomedEntry_invariant_A DeactivateEntry_invariant_A)

lemma ProcessPendingQueue_invariant_A:
  "ProcessPendingQueue entry c = Some c' \<Longrightarrow> invariant_A c \<Longrightarrow> invariant_A c'"
  using invariant_A_entryD [of c entry]
  by (auto simp add: ProcessPendingQueue_def split: bind_splits if_splits
      intro!: invariant_A_upd)

lemma invariant_A_entry:
  "invariant_A c \<Longrightarrow> entries c entry = Some e \<Longrightarrow> writer e \<noteq> None \<longrightarrow> readers e = []"
  by (simp add: invariant_A_def no_readers_beside_writer_def)

lemma AddTransactionToEntry_invariant_A:
  assumes "AddTransactionToEntry env entry tr c = Some (rv, c')" and "invariant_A c"
  shows "invariant_A c'"
proof -
  from assms(1) obtain e where e: "entries c entry = Some e"
    by (auto simp add: AddTransactionToEntry_def split: bind_splits)
  note ok = invariant_A_entry [OF assms(2) e]
  from assms e ok show ?thesis
    by (auto simp add: AddTransactionToEntry_def ProcessPendingQueue_def Let_def
        split: bind_splits if_splits intro!: invariant_A_upd)
qed


lemma DoneWritingToEntry_invariant_A:
  assumes "DoneWritingToEntry env entry success c = Some c'" and "invariant_A c"
    and "callbacks_keep invariant_A env"
  shows "invariant_A c'"
proof -
  from assms(1) obtain e where e: "entries c entry = Some e"
    by (auto simp add: DoneWritingToEntry_def split: bind_splits)
  show ?thesis
  proof (cases success)
    case True
    with assms(1,2) e show ?thesis
      by (auto simp add: DoneWritingToEntry_def ProcessPendingQueue_def Let_def
          split: bind_splits if_splits intro!: invariant_A_upd)
  next
    case False
    with assms(1) e obtain d c2 where
      c2: "DestroyEntry env entry
             (emit (DiskDoom d) (store_entry entry (e\<lparr>writer := None, pending_queue := []\<rparr>) c)) =
           Some c2"
      and c': "c' = fold (\<lambda>tr. run_io_callback env tr ERR_CACHE_RACE) (pending_queue e) c2"
      by (auto simp add: DoneWritingToEntry_def Let_def split: bind_splits)
    have "invariant_A (emit (DiskDoom d)
            (store_entry entry (e\<lparr>writer := None, pending_queue := []\<rparr>) c))"
      using assms(2) by (auto intro!: invariant_A_upd)
    from DestroyEntry_invariant_A [OF c2 this] c' assms(3) show ?thesis
      by (simp add: invariant_A_fold_callbacks)
  qed
qed

lemma DoneReadingFromEntry_invariant_A:
  assumes "DoneReadingFromEntry entry tr c = Some c'" and "invariant_A c"
  shows "invariant_A c'"
proof -
  from assms(1) obtain e where e: "entries c entry = Some e"
    by (auto simp add: DoneReadingFromEntry_def split: bind_splits)
  from assms e show ?thesis
    by (auto simp add: DoneReadingFromEntry_def ProcessPendingQueue_def Let_def
        split: bind_splits if_splits intro!: invariant_A_upd)
qed

lemma DoneWithEntry_invariant_A:
  assumes "DoneWithEntry env entry tr cancel c = Some c'" and "invariant_A c"
    and "callbacks_keep invariant_A env"
  shows "invariant_A c'"
proof -
  from assms(1) obtain e where e: "entries c entry = Some e"
    by (auto simp add: DoneWithEntry_def split: bind_splits)
  show ?thesis
  proof (cases "will_process_pending_queue e \<and> readers e = []")
    case True
    with assms(1,2) e show ?thesis by (simp add: DoneWithEntry_def)
  next
    case False
    note early = this
    show ?thesis
    proof (cases "writer e = None")
      case True
      with early assms(1) e have "DoneReadingFromEntry entry tr c = Some c'"
        by (auto simp add: DoneWithEntry_def split: if_splits)
      from DoneReadingFromEntry_invariant_A [OF this assms(2)] show ?thesis .
    next
      case False
      show ?thesis
      proof (cases cancel)
        case True
        with False early assms(1) e have
          "DoneWritingToEntry env entry (add_truncated_flag env tr) (emit (AddTruncated tr) c) =
             Some c'"
          by (auto simp add: DoneWithEntry_def split: bind_splits if_splits)
        from DoneWritingToEntry_invariant_A [OF this _ assms(3)] assms(2) show ?thesis by simp
      next
        case no_cancel: False
        with False early assms(1) e have "DoneWritingToEntry env entry False c = Some c'"
          by (auto simp add: DoneWithEntry_def split: bind_splits if_splits)
        from DoneWritingToEntry_invariant_A [OF this assms(2,3)] show ?thesis .
      qed
    qed
  qed
qed

lemma ConvertWriterToReader_invariant_A:
  assumes "ConvertWriterToReader env entry c = Some c'" and "invariant_A c"
  shows "invariant_A c'"
proof -
  from assms(1) obtain e where e: "entries c entry = Some e"
    by (auto simp add: ConvertWriterToReader_def split: bind_splits)
  from assms e show ?thesis
    by (auto simp add: ConvertWriterToReader_def ProcessPendingQueue_def Let_def
        split: bind_splits if_splits intro!: invariant_A_upd)
qed

lemma OnProcessPendingQueue_invariant_A:
  assumes "OnProcessPendingQueue env entry c = Some c'" and "invariant_A c"
    and "callbacks_keep invariant_A env"
  shows "invariant_A c'"
proof -
  from assms(1) obtain e0 where e0: "entries c entry = Some e0"
    by (auto simp add: OnProcessPendingQueue_def split: bind_splits)
  with assms(1) have w: "writer e0 = None"
    by (auto simp add: OnProcessPendingQueue_def Let_def split: bind_splits)
  define c1 where "c1 = store_entry entry (e0\<lparr>will_process_pending_queue := False\<rparr>) c"
  have i1: "invariant_A c1"
    using assms(2) w by (auto simp add: c1_def intro!: invariant_A_upd)
  show ?thesis
  proof (cases "pending_queue e0")
    case Nil
    show ?thesis
    proof (cases "readers e0 = []")
      case True
      with Nil assms(1) e0 w have "DestroyEntry env entry c1 = Some c'"
        by (simp add: OnProcessPendingQueue_def Let_def c1_def)
      from DestroyEntry_invariant_A [OF this i1] show ?thesis .
    next
      case False
      with Nil assms(1) e0 w have "c' = c1"
        by (simp add: OnProcessPendingQueue_def Let_def c1_def)
      with i1 show ?thesis by simp
    qed
  next
    case (Cons nxt rest)
    show ?thesis
    proof (cases "includes_WRITE (trans_mode env nxt) \<and> readers e0 \<noteq> []")
      case True
      with Cons assms(1) e0 w have "c' = c1"
        by (simp add: OnProcessPendingQueue_def Let_def c1_def)
      with i1 show ?thesis by simp
    next
      case False
      with Cons assms(1) e0 w obtain rv c2 where
        a: "AddTransactionToEntry env entry nxt
              (store_entry entry
                 (e0\<lparr>will_process_pending_queue := False, pending_queue := rest\<rparr>) c1) =
            Some (rv, c2)"
        and c': "c' = (if rv \<noteq> ERR_IO_PENDING then run_io_callback env nxt rv c2 else c2)"
        by (auto simp add: OnProcessPendingQueue_def Let_def c1_def split: bind_splits if_splits)
      have "invariant_A
          (store_entry entry
             (e0\<lparr>will_process_pending_queue := False, pending_queue := rest\<rparr>) c1)"
        using i1 w by (auto intro!: invariant_A_upd)
      from AddTransactionToEntry_invariant_A [OF a this] c' assms(3) show ?thesis
        by (simp add: invariant_A_callback)
    qed
  qed
qed


lemma invariant_A_cong: "entries c' = entries c \<Longrightarrow> invariant_A c' = invariant_A c"
  by (simp add: invariant_A_def)

lemma NotifyTransaction_invariant_A:
  assumes "NotifyTransaction env item result entry c = Some c'" and "invariant_A c"
    and "callbacks_keep invariant_A env"
  shows "invariant_A c'"
  using assms
  by (auto simp add: NotifyTransaction_def Let_def invariant_A_callback
      split: bind_splits option.splits)

lemma DoCallback_invariant_A:
  assumes "DoCallback env item result backend c = (called, c')" and "invariant_A c"
    and "callbacks_keep invariant_A env"
  shows "invariant_A c'"
  using assms
  by (auto simp add: DoCallback_def Let_def invariant_A_callback split: option.splits)

lemma ActivateEntry_invariant_A:
  "ActivateEntry k d c = Some (entry, c') \<Longrightarrow> invariant_A c \<Longrightarrow> invariant_A c'"
  by (auto simp add: ActivateEntry_def Let_def ActiveEntry_new_def split: bind_splits
      intro!: invariant_A_upd)

lemma GetPendingOp_entries: "GetPendingOp k c = Some (p, c') \<Longrightarrow> entries c' = entries c"
  by (auto simp add: GetPendingOp_def Let_def split: bind_splits option.splits)

lemma DeletePendingOp_entries: "DeletePendingOp env p c = Some c' \<Longrightarrow> entries c' = entries c"
  by (auto simp add: DeletePendingOp_def Let_def split: bind_splits if_splits)

lemma OnBackendCreated_invariant_A:
  assumes "OnBackendCreated env result p c = Some c'" and "invariant_A c"
    and "callbacks_keep invariant_A env"
  shows "invariant_A c'"
proof -
  from assms(1) obtain po item where po: "ops c p = Some po" and item: "op_writer po = Some item"
    by (auto simp add: OnBackendCreated_def split: bind_splits)
  define c1 where "c1 = (if backend_factory c \<noteq> None
               then c\<lparr>backend_factory := None,
                      disk_cache := (if result = OK then op_backend po else disk_cache c)\<rparr>
               else c)"
  have i1: "invariant_A c1" using assms(2) by (simp add: c1_def)
  have "\<exists>c2. invariant_A c2 \<and>
          (case DoCallback env item result (op_backend po) c2 of
             (True, c3) \<Rightarrow> Some c3
           | (False, c3) \<Rightarrow> NotifyTransaction env item result None c3) = Some c'"
  proof (cases "op_pending_queue po")
    case Nil
    with assms(1) po item obtain c2 where
      d: "DeletePendingOp env p
            (store_op p (po\<lparr>op_callback := None\<rparr>) (c1\<lparr>building_backend := False\<rparr>)) = Some c2"
      and fin: "(case DoCallback env item result (op_backend po) c2 of
             (True, c3) \<Rightarrow> Some c3
           | (False, c3) \<Rightarrow> NotifyTransaction env item result None c3) = Some c'"
      by (auto simp add: OnBackendCreated_def Let_def c1_def simp del: not_None_eq
          split: bind_splits)
    from DeletePendingOp_entries [OF d] i1 have "invariant_A c2"
      by (simp add: invariant_A_def)
    with fin show ?thesis by blast
  next
    case (Cons pending_item rest)
    with assms(1) po item have
      "(case DoCallback env item result (op_backend po)
               (PostTask (OnBackendCreatedTask result p)
                  (store_op p (po\<lparr>op_callback := None, op_pending_queue := rest,
                                   op_writer := Some pending_item\<rparr>) c1)) of
             (True, c3) \<Rightarrow> Some c3
           | (False, c3) \<Rightarrow> NotifyTransaction env item result None c3) = Some c'"
      by (auto simp add: OnBackendCreated_def Let_def c1_def simp del: not_None_eq
          split: bind_splits)
    moreover have "invariant_A (PostTask (OnBackendCreatedTask result p)
                  (store_op p (po\<lparr>op_callback := None, op_pending_queue := rest,
                                   op_writer := Some pending_item\<rparr>) c1))"
      using i1 by simp
    ultimately show ?thesis by blast
  qed
  then obtain c2 where i2: "invariant_A c2"
    and fin: "(case DoCallback env item result (op_backend po) c2 of
        (True, c3) \<Rightarrow> Some c3
      | (False, c3) \<Rightarrow> NotifyTransaction env item result None c3) = Some c'"
    by blast
  obtain called c3 where d: "DoCallback env item result (op_backend po) c2 = (called, c3)"
    by (cases "DoCallback env item result (op_backend po) c2")
  from DoCallback_invariant_A [OF d i2 assms(3)] have i3: "invariant_A c3" .
  show ?thesis
  proof (cases called)
    case True
    with fin d i3 show ?thesis by simp
  next
    case False
    with fin d have "NotifyTransaction env item result None c3 = Some c'" by simp
    from NotifyTransaction_invariant_A [OF this i3 assms(3)] show ?thesis .
  qed
qed

lemma OnIOComplete_prepare_invariant_A:
  assumes "OnIOComplete_prepare env result p c = Some (item, fail, entry, k, items, c')"
    and "invariant_A c"
  shows "invariant_A c'"
proof -
  note defs = OnIOComplete_prepare_def Let_def ActivateEntry_def emit_def store_op_def
  from assms(1) obtain po lead where po: "ops c p = Some po" and lead: "op_writer po = Some lead"
    by (auto simp add: OnIOComplete_prepare_def split: bind_splits)
  consider (activated) "result = OK" "wi_operation lead \<noteq> WI_DOOM_ENTRY" "IsValid lead"
    | (other) "\<not> (result = OK \<and> wi_operation lead \<noteq> WI_DOOM_ENTRY \<and> IsValid lead)"
    by blast
  then show ?thesis
  proof cases
    case activated
    with assms(1) po lead obtain x m where
      d: "DeletePendingOp env p
            (c\<lparr>entries := (entries c)(next_ptr c \<mapsto> ActiveEntry_new x),
               active_entries := assign_key (get_key env x) (next_ptr c) (active_entries c),
               next_ptr := Suc (next_ptr c),
               ops := m\<rparr>) = Some c'"
      by (auto simp add: defs split: bind_splits)
    from DeletePendingOp_entries [OF d] assms(2) show ?thesis
      by (auto simp add: invariant_A_def ActiveEntry_new_def intro!: invariant_A_upd [unfolded invariant_A_def])
  next
    case other
    with assms(1) po lead obtain c1 where
      d: "DeletePendingOp env p c1 = Some c'" and e: "entries c1 = entries c"
      by (auto simp add: defs split: bind_splits if_splits)
    from DeletePendingOp_entries [OF d] e assms(2) show ?thesis
      by (simp add: invariant_A_def)
  qed
qed

lemma OnIOComplete_loop_invariant_A:
  assumes "callbacks_keep invariant_A env"
  shows "OnIOComplete_loop env result opn k items fail entry c = Some c' \<Longrightarrow> invariant_A c \<Longrightarrow>
         invariant_A c'"
proof (induction items arbitrary: fail entry c)
  case Nil
  then show ?case by simp
next
  case (Cons item items)
  from Cons.prems(1) obtain status en f e1 c1 where
    n: "NotifyTransaction env item status en c = Some c1"
    and l: "OnIOComplete_loop env result opn k items f e1 c1 = Some c'"
    by (auto simp add: Let_def split: if_splits bind_splits)
  from NotifyTransaction_invariant_A [OF n Cons.prems(2) assms] have "invariant_A c1" .
  from Cons.IH [OF l this] show ?case .
qed

lemma OnIOComplete_invariant_A:
  assumes "OnIOComplete env result p c = Some c'" and "invariant_A c"
    and "callbacks_keep invariant_A env"
  shows "invariant_A c'"
proof -
  from assms(1) obtain po w where po: "ops c p = Some po" and w: "op_writer po = Some w"
    by (auto simp add: OnIOComplete_def split: bind_splits)
  show ?thesis
  proof (cases "wi_operation w = WI_CREATE_BACKEND")
    case True
    with assms(1) po w have "OnBackendCreated env result p c = Some c'"
      by (simp add: OnIOComplete_def)
    from OnBackendCreated_invariant_A [OF this assms(2,3)] show ?thesis .
  next
    case False
    with assms(1) po w obtain item fail entry k items c1 c2 where
      pr: "OnIOComplete_prepare env result p c = Some (item, fail, entry, k, items, c1)"
      and n: "NotifyTransaction env item result entry c1 = Some c2"
      and l: "OnIOComplete_loop env result (wi_operation item) k items fail entry c2 = Some c'"
      by (auto simp add: OnIOComplete_def split: bind_splits)
    from OnIOComplete_prepare_invariant_A [OF pr assms(2)] have "invariant_A c1" .
    from NotifyTransaction_invariant_A [OF n this assms(3)] have "invariant_A c2" .
    from OnIOComplete_loop_invariant_A [OF assms(3) l this] show ?thesis .
  qed
qed


lemma issue_invariant_A:
  assumes "GetPendingOp k c = Some (p, c1)"
    and "c' = c1 \<or> (\<exists>po'. c' = store_op p po' c1) \<or>
         (\<exists>rv po'. OnIOComplete env rv p (store_op p po' c1) = Some c')"
    and "invariant_A c" and "callbacks_keep invariant_A env"
  shows "invariant_A c'"
proof -
  from GetPendingOp_entries [OF assms(1)] assms(3) have i1: "invariant_A c1"
    by (simp add: invariant_A_def)
  from assms(2) consider "c' = c1" | po' where "c' = store_op p po' c1"
    | rv po' where "OnIOComplete env rv p (store_op p po' c1) = Some c'"
    by blast
  then show ?thesis
  proof cases
    case 1
    with i1 show ?thesis by simp
  next
    case 2
    with i1 show ?thesis by simp
  next
    case 3
    from OnIOComplete_invariant_A [OF 3 _ assms(4)] i1 show ?thesis by simp
  qed
qed

lemma OpenEntry_invariant_A:
  assumes "OpenEntry env k slot tr c = Some (rv, c')" and "invariant_A c"
    and "callbacks_keep invariant_A env"
  shows "invariant_A c'"
proof (cases "FindActiveEntry k c")
  case (Some a)
  with assms(1,2) show ?thesis by (auto simp add: OpenEntry_def)
next
  case None
  with assms(1) obtain p c1 where g: "GetPendingOp k c = Some (p, c1)"
    and alt: "c' = c1 \<or> (\<exists>po'. c' = store_op p po' c1) \<or>
         (\<exists>rv po'. OnIOComplete env rv p (store_op p po' c1) = Some c')"
    by (auto simp add: OpenEntry_def Let_def split: bind_splits if_splits prod.splits)
  from issue_invariant_A [OF g alt assms(2,3)] show ?thesis .
qed

lemma CreateEntry_invariant_A:
  assumes "CreateEntry env k slot tr c = Some (rv, c')" and "invariant_A c"
    and "callbacks_keep invariant_A env"
  shows "invariant_A c'"
proof -
  from assms(1) obtain p c1 where g: "GetPendingOp k c = Some (p, c1)"
    and alt: "c' = c1 \<or> (\<exists>po'. c' = store_op p po' c1) \<or>
         (\<exists>rv po'. OnIOComplete env rv p (store_op p po' c1) = Some c')"
    by (auto simp add: CreateEntry_def Let_def split: bind_splits if_splits prod.splits)
  from issue_invariant_A [OF g alt assms(2,3)] show ?thesis .
qed

lemma AsyncDoomEntry_invariant_A:
  assumes "AsyncDoomEntry env k tr c = Some (rv, c')" and "invariant_A c"
    and "callbacks_keep invariant_A env"
  shows "invariant_A c'"
proof -
  from assms(1) obtain p c1 where g: "GetPendingOp k c = Some (p, c1)"
    and alt: "c' = c1 \<or> (\<exists>po'. c' = store_op p po' c1) \<or>
         (\<exists>rv po'. OnIOComplete env rv p (store_op p po' c1) = Some c')"
    by (auto simp add: AsyncDoomEntry_def Let_def split: bind_splits if_splits prod.splits)
  from issue_invariant_A [OF g alt assms(2,3)] show ?thesis .
qed

lemma DoomEntry_invariant_A:
  assumes "DoomEntry env k tr c = Some (rv, c')" and "invariant_A c"
    and "callbacks_keep invariant_A env"
  shows "invariant_A c'"
proof (cases "map_of (active_entries c) k")
  case None
  with assms(1) have "AsyncDoomEntry env k tr c = Some (rv, c')" by (simp add: DoomEntry_def)
  from AsyncDoomEntry_invariant_A [OF this assms(2,3)] show ?thesis .
next
  case (Some entry)
  with assms(1) obtain e where e: "entries c entry = Some e"
    by (auto simp add: DoomEntry_def split: bind_splits)
  note ok = invariant_A_entry [OF assms(2) e]
  from Some assms e ok show ?thesis
    by (auto simp add: DoomEntry_def split: bind_splits
        intro!: invariant_A_upd [of "c\<lparr>active_entries := ae, doomed_entries := de\<rparr>" for ae de,
          simplified])
qed

lemma CreateBackend_invariant_A:
  assumes "CreateBackend env slot cb c = Some (rv, c')" and "invariant_A c"
    and "callbacks_keep invariant_A env"
  shows "invariant_A c'"
proof (cases "backend_factory c")
  case None
  with assms(1,2) show ?thesis by (simp add: CreateBackend_def)
next
  case (Some factory)
  with assms(1) obtain p c1 where g: "GetPendingOp [] (c\<lparr>building_backend := True\<rparr>) = Some (p, c1)"
    and alt: "c' = c1 \<or> (\<exists>po'. c' = store_op p po' c1) \<or>
         (\<exists>rv po'. OnIOComplete env rv p (store_op p po' c1) = Some c')"
    by (auto simp add: CreateBackend_def Let_def split: bind_splits if_splits prod.splits)
  from issue_invariant_A [OF g alt _ assms(3)] assms(2) show ?thesis by simp
qed

lemma GetBackend_invariant_A:
  assumes "GetBackend env slot cb c = Some (rv, c')" and "invariant_A c"
    and "callbacks_keep invariant_A env"
  shows "invariant_A c'"
proof (cases "disk_cache c")
  case None
  with assms(1) have "CreateBackend env (Some slot) cb c = Some (rv, c')"
    by (auto simp add: GetBackend_def split: bind_splits)
  from CreateBackend_invariant_A [OF this assms(2,3)] show ?thesis .
next
  case (Some b)
  with assms(1,2) show ?thesis by (auto simp add: GetBackend_def split: bind_splits)
qed

lemma GetBackendForTransaction_invariant_A:
  assumes "GetBackendForTransaction tr c = Some (rv, c')" and "invariant_A c"
  shows "invariant_A c'"
proof -
  from assms(1) have "c' = c \<or> (\<exists>p c1 po'. GetPendingOp [] c = Some (p, c1) \<and> c' = store_op p po' c1)"
    by (auto simp add: GetBackendForTransaction_def Let_def split: bind_splits if_splits)
  with assms(2) show ?thesis
    by (auto simp add: invariant_A_def dest!: GetPendingOp_entries)
qed

lemma CreateTransaction_invariant_A:
  assumes "CreateTransaction env c = Some (rv, c')" and "invariant_A c"
    and "callbacks_keep invariant_A env"
  shows "invariant_A c'"
proof (cases "disk_cache c")
  case None
  with assms(1) obtain rv' where "CreateBackend env None None c = Some (rv', c')"
    by (auto simp add: CreateTransaction_def)
  from CreateBackend_invariant_A [OF this assms(2,3)] show ?thesis .
next
  case (Some b)
  with assms(1,2) show ?thesis by (simp add: CreateTransaction_def)
qed


lemma RemovePendingTransactionFromEntry_invariant_A:
  assumes "RemovePendingTransactionFromEntry entry tr c = Some (found, c')" and "invariant_A c"
  shows "invariant_A c'"
proof -
  from assms(1) obtain e where e: "entries c entry = Some e"
    by (auto simp add: RemovePendingTransactionFromEntry_def split: bind_splits)
  note ok = invariant_A_entry [OF assms(2) e]
  from assms e ok show ?thesis
    by (auto simp add: RemovePendingTransactionFromEntry_def split: bind_splits if_splits
        intro!: invariant_A_upd)
qed

lemma RemovePendingTransactionFromPendingOp_entries:
  "RemovePendingTransactionFromPendingOp p tr c = Some (found, c') \<Longrightarrow> entries c' = entries c"
  by (auto simp add: RemovePendingTransactionFromPendingOp_def
      split: bind_splits if_splits option.splits)

lemma RemovePendingTransaction_doomed_invariant_A:
  "RemovePendingTransaction_doomed ks tr c = Some (found, c') \<Longrightarrow> invariant_A c \<Longrightarrow>
   invariant_A c'"
proof (induction ks arbitrary: c)
  case Nil
  then show ?case by simp
next
  case (Cons k ks)
  from Cons.prems(1) obtain f c1 where
    r: "RemovePendingTransactionFromEntry k tr c = Some (f, c1)"
    and rest: "c' = c1 \<or> RemovePendingTransaction_doomed ks tr c1 = Some (found, c')"
    by (auto split: bind_splits if_splits)
  from RemovePendingTransactionFromEntry_invariant_A [OF r Cons.prems(2)]
  have "invariant_A c1" .
  with rest Cons.IH show ?case by blast
qed

lemma bind_pairE:
  assumes "(x \<bind> (\<lambda>(a, b). g a b)) = Some y"
  obtains a b where "x = Some (a, b)" and "g a b = Some y"
  using assms by (cases x) auto

lemma RemovePendingTransaction_invariant_A:
  assumes "RemovePendingTransaction env tr c = Some c'" and "invariant_A c"
  shows "invariant_A c'"
proof -
  have step_entry: "invariant_A c2"
    if "(case map_of (active_entries c1) k of
           None \<Rightarrow> Some (False, c1)
         | Some entry \<Rightarrow> RemovePendingTransactionFromEntry entry tr c1) = Some (f, c2)"
      and "invariant_A c1" for c1 c2 k f
  proof (cases "map_of (active_entries c1) k")
    case None
    with that show ?thesis by simp
  next
    case (Some entry)
    with that(1) have "RemovePendingTransactionFromEntry entry tr c1 = Some (f, c2)" by simp
    from RemovePendingTransactionFromEntry_invariant_A [OF this that(2)] show ?thesis .
  qed
  have step_op: "invariant_A c2"
    if "(case map_of (pending_ops c1) k of
           None \<Rightarrow> Some (False, c1)
         | Some p \<Rightarrow> RemovePendingTransactionFromPendingOp p tr c1) = Some (f, c2)"
      and "invariant_A c1" for c1 c2 k f
  proof (cases "map_of (pending_ops c1) k")
    case None
    with that show ?thesis by simp
  next
    case (Some p)
    with that(1) have "RemovePendingTransactionFromPendingOp p tr c1 = Some (f, c2)" by simp
    from RemovePendingTransactionFromPendingOp_entries [OF this] that(2) show ?thesis
      by (simp add: invariant_A_def)
  qed
  have step_gate: "invariant_A c2"
    if "(if building_backend c1
            then (case map_of (pending_ops c1) [] of
                    None \<Rightarrow> Some (False, c1)
                  | Some p \<Rightarrow> RemovePendingTransactionFromPendingOp p tr c1)
            else Some (False, c1)) = Some (f, c2)"
      and "invariant_A c1" for c1 c2 f
  proof (cases "building_backend c1")
    case True
    with that(1) have "(case map_of (pending_ops c1) [] of
           None \<Rightarrow> Some (False, c1)
         | Some p \<Rightarrow> RemovePendingTransactionFromPendingOp p tr c1) = Some (f, c2)" by simp
    from step_op [OF this that(2)] show ?thesis .
  next
    case False
    with that show ?thesis by simp
  qed
  from assms(1) show ?thesis
    unfolding RemovePendingTransaction_def
  proof (rule bind_pairE)
    fix f1 c1
    assume s1: "(case map_of (active_entries c) (trans_key env tr) of
           None \<Rightarrow> Some (False, c)
         | Some entry \<Rightarrow> RemovePendingTransactionFromEntry entry tr c) = Some (f1, c1)"
    from step_entry [OF s1 assms(2)] have i1: "invariant_A c1" .
    assume r1: "(if f1 then Some c1
         else (if building_backend c1
               then case map_of (pending_ops c1) [] of None \<Rightarrow> Some (False, c1)
                    | Some p \<Rightarrow> RemovePendingTransactionFromPendingOp p tr c1
               else Some (False, c1)) \<bind>
              (\<lambda>(found, c2).
                  if found then Some c2
                  else (case map_of (pending_ops c2) (trans_key env tr) of
                        None \<Rightarrow> Some (False, c2)
                        | Some p \<Rightarrow> RemovePendingTransactionFromPendingOp p tr c2) \<bind>
                       (\<lambda>(found, c3).
                           if found then Some c3
                           else RemovePendingTransaction_doomed (doomed_entries c3) tr
                                 c3 \<bind>
                                (\<lambda>(found, c4). DCHECK found \<bind> (\<lambda>_. Some c4))))) =
        Some c'"
    show ?thesis
    proof (cases f1)
      case True
      with r1 i1 show ?thesis by (simp only: if_True option.inject)
    next
      case False
      with r1 have "(if building_backend c1
               then case map_of (pending_ops c1) [] of None \<Rightarrow> Some (False, c1)
                    | Some p \<Rightarrow> RemovePendingTransactionFromPendingOp p tr c1
               else Some (False, c1)) \<bind>
              (\<lambda>(found, c2).
                  if found then Some c2
                  else (case map_of (pending_ops c2) (trans_key env tr) of
                        None \<Rightarrow> Some (False, c2)
                        | Some p \<Rightarrow> RemovePendingTransactionFromPendingOp p tr c2) \<bind>
                       (\<lambda>(found, c3).
                           if found then Some c3
                           else RemovePendingTransaction_doomed (doomed_entries c3) tr
                                 c3 \<bind>
                                (\<lambda>(found, c4). DCHECK found \<bind> (\<lambda>_. Some c4)))) =
        Some c'" by (simp only: if_False)
      then show ?thesis
      proof (rule bind_pairE)
        fix f2 c2
        assume s2: "(if building_backend c1
               then case map_of (pending_ops c1) [] of None \<Rightarrow> Some (False, c1)
                    | Some p \<Rightarrow> RemovePendingTransactionFromPendingOp p tr c1
               else Some (False, c1)) = Some (f2, c2)"
        from step_gate [OF s2 i1] have i2: "invariant_A c2" .
        assume r2: "(if f2 then Some c2
                  else (case map_of (pending_ops c2) (trans_key env tr) of
                        None \<Rightarrow> Some (False, c2)
                        | Some p \<Rightarrow> RemovePendingTransactionFromPendingOp p tr c2) \<bind>
                       (\<lambda>(found, c3).
                           if found then Some c3
                           else RemovePendingTransaction_doomed (doomed_entries c3) tr
                                 c3 \<bind>
                                (\<lambda>(found, c4). DCHECK found \<bind> (\<lambda>_. Some c4)))) =
            Some c'"
        show ?thesis
        proof (cases f2)
          case True
          with r2 i2 show ?thesis by (simp only: if_True option.inject)
        next
          case no2: False
          with r2 have "(case map_of (pending_ops c2) (trans_key env tr) of
                        None \<Rightarrow> Some (False, c2)
                        | Some p \<Rightarrow> RemovePendingTransactionFromPendingOp p tr c2) \<bind>
                       (\<lambda>(found, c3).
                           if found then Some c3
                           else RemovePendingTransaction_doomed (doomed_entries c3) tr
                                 c3 \<bind>
                                (\<lambda>(found, c4). DCHECK found \<bind> (\<lambda>_. Some c4))) =
            Some c'" by (simp only: if_False)
          then show ?thesis
          proof (rule bind_pairE)
            fix f3 c3
            assume s3: "(case map_of (pending_ops c2) (trans_key env tr) of
                        None \<Rightarrow> Some (False, c2)
                        | Some p \<Rightarrow> RemovePendingTransactionFromPendingOp p tr c2) =
                  Some (f3, c3)"
            from step_op [OF s3 i2] have i3: "invariant_A c3" .
            assume r3: "(if f3 then Some c3
                           else RemovePendingTransaction_doomed (doomed_entries c3) tr
                                 c3 \<bind>
                                (\<lambda>(found, c4). DCHECK found \<bind> (\<lambda>_. Some c4))) =
                Some c'"
            show ?thesis
            proof (cases f3)
              case True
              with r3 i3 show ?thesis by (simp only: if_True option.inject)
            next
              case no3: False
              with r3 have "RemovePendingTransaction_doomed (doomed_entries c3) tr c3 \<bind>
                                (\<lambda>(found, c4). DCHECK found \<bind> (\<lambda>_. Some c4)) = Some c'"
                by (simp only: if_False)
              then obtain f4 c4 where
                d: "RemovePendingTransaction_doomed (doomed_entries c3) tr c3 = Some (f4, c4)"
                and "(DCHECK f4 \<bind> (\<lambda>_. Some c4)) = Some c'"
                by (rule bind_pairE)
              then have "c4 = c'" by (cases f4) simp_all
              with RemovePendingTransaction_doomed_invariant_A [OF d i3] show ?thesis by simp
            qed
          qed
        qed
      qed
    qed
  qed
qed

lemma GenerateCacheKey_entries:
  "GenerateCacheKey env request c = Some (k, c') \<Longrightarrow> entries c' = entries c"
  by (auto simp add: GenerateCacheKey_def Let_def split: bind_splits if_splits)

lemma run_task_invariant_A:
  assumes "run_task env c = Some c'" and "invariant_A c" and "callbacks_keep invariant_A env"
  shows "invariant_A c'"
proof (cases "tasks c")
  case Nil
  with assms(1,2) show ?thesis by (simp add: run_task_def)
next
  case (Cons t rest)
  show ?thesis
  proof (cases t)
    case (OnProcessPendingQueueTask entry)
    with Cons assms(1) have "OnProcessPendingQueue env entry (c\<lparr>tasks := rest\<rparr>) = Some c'"
      by (simp add: run_task_def)
    from OnProcessPendingQueue_invariant_A [OF this _ assms(3)] assms(2) show ?thesis by simp
  next
    case (OnBackendCreatedTask result p)
    with Cons assms(1) have "OnBackendCreated env result p (c\<lparr>tasks := rest\<rparr>) = Some c'"
      by (simp add: run_task_def)
    from OnBackendCreated_invariant_A [OF this _ assms(3)] assms(2) show ?thesis by simp
  qed
qed

lemma BackendCallback_Run_invariant_A:
  assumes "BackendCallback_Run env p result out c = Some c'" and "invariant_A c"
    and "callbacks_keep invariant_A env"
  shows "invariant_A c'"
proof -
  from assms(1) obtain po' where "OnIOComplete env result p (store_op p po' c) = Some c'"
    by (auto simp add: BackendCallback_Run_def split: bind_splits)
  from OnIOComplete_invariant_A [OF this _ assms(3)] assms(2) show ?thesis by simp
qed

lemma perform_invariant_A:
  assumes "perform env operation c = Some c'" and "invariant_A c"
    and "callbacks_keep invariant_A env"
  shows "invariant_A c'"
proof (cases operation)
  case (Call_AddTransactionToEntry entry tr)
  with assms(1) obtain rv where "AddTransactionToEntry env entry tr c = Some (rv, c')" by auto
  from AddTransactionToEntry_invariant_A [OF this assms(2)] show ?thesis .
next
  case (Call_DoneWithEntry entry tr cancel)
  with assms(1) have "DoneWithEntry env entry tr cancel c = Some c'" by simp
  from DoneWithEntry_invariant_A [OF this assms(2,3)] show ?thesis .
next
  case (Call_DoneWritingToEntry entry success)
  with assms(1) have "DoneWritingToEntry env entry success c = Some c'" by simp
  from DoneWritingToEntry_invariant_A [OF this assms(2,3)] show ?thesis .
next
  case (Call_DoneReadingFromEntry entry tr)
  with assms(1) have "DoneReadingFromEntry entry tr c = Some c'" by simp
  from DoneReadingFromEntry_invariant_A [OF this assms(2)] show ?thesis .
next
  case (Call_ConvertWriterToReader entry)
  with assms(1) have "ConvertWriterToReader env entry c = Some c'" by simp
  from ConvertWriterToReader_invariant_A [OF this assms(2)] show ?thesis .
next
  case (Call_OpenEntry k slot tr)
  with assms(1) obtain rv where "OpenEntry env k slot tr c = Some (rv, c')" by auto
  from OpenEntry_invariant_A [OF this assms(2,3)] show ?thesis .
next
  case (Call_CreateEntry k slot tr)
  with assms(1) obtain rv where "CreateEntry env k slot tr c = Some (rv, c')" by auto
  from CreateEntry_invariant_A [OF this assms(2,3)] show ?thesis .
next
  case (Call_DoomEntry k tr)
  with assms(1) obtain rv where "DoomEntry env k tr c = Some (rv, c')" by auto
  from DoomEntry_invariant_A [OF this assms(2,3)] show ?thesis .
next
  case (Call_AsyncDoomEntry k tr)
  with assms(1) obtain rv where "AsyncDoomEntry env k tr c = Some (rv, c')" by auto
  from AsyncDoomEntry_invariant_A [OF this assms(2,3)] show ?thesis .
next
  case (Call_GetBackend slot cb)
  with assms(1) obtain rv where "GetBackend env slot cb c = Some (rv, c')" by auto
  from GetBackend_invariant_A [OF this assms(2,3)] show ?thesis .
next
  case (Call_GetBackendForTransaction tr)
  with assms(1) obtain rv where "GetBackendForTransaction tr c = Some (rv, c')" by auto
  from GetBackendForTransaction_invariant_A [OF this assms(2)] show ?thesis .
next
  case Call_CreateTransaction
  with assms(1) obtain rv where "CreateTransaction env c = Some (rv, c')" by auto
  from CreateTransaction_invariant_A [OF this assms(2,3)] show ?thesis .
next
  case (Call_RemovePendingTransaction tr)
  with assms(1) have "RemovePendingTransaction env tr c = Some c'" by simp
  from RemovePendingTransaction_invariant_A [OF this assms(2)] show ?thesis .
next
  case (Call_GenerateCacheKey request)
  with assms(1) obtain k where "GenerateCacheKey env request c = Some (k, c')" by auto
  from GenerateCacheKey_entries [OF this] assms(2) show ?thesis by (simp add: invariant_A_def)
next
  case Run_task
  with assms(1) have "run_task env c = Some c'" by simp
  from run_task_invariant_A [OF this assms(2,3)] show ?thesis .
next
  case (Backend_completes p result out)
  with assms(1) have "BackendCallback_Run env p result out c = Some c'" by simp
  from BackendCallback_Run_invariant_A [OF this assms(2,3)] show ?thesis .
qed

lemma reachable_invariant_A:
  assumes "callbacks_keep invariant_A env"
  shows "reachable env c \<Longrightarrow> invariant_A c"
proof (induction rule: reachable.induct)
  case (constructed factory)
  show ?case by (simp add: invariant_A_def HttpCache_new_def no_readers_beside_writer_def)
next
  case (performed c operation c')
  from perform_invariant_A [OF performed.hyps(2) performed.IH assms] show ?case .
qed

lemma reachable_perform_all:
  "reachable env c \<Longrightarrow> perform_all env operations c = Some c' \<Longrightarrow> reachable env c'"
proof (induction operations arbitrary: c)
  case Nil
  then show ?case by simp
next
  case (Cons operation operations)
  from Cons.prems(2) obtain c1 where p: "perform env operation c = Some c1"
    and r: "perform_all env operations c1 = Some c'"
    by (auto split: bind_splits)
  from Cons.prems(1) p have "reachable env c1" by (rule reachable.performed)
  from Cons.IH [OF this r] show ?case .
qed

text \<open>
  C2. In every cache that a new cache reaches by the operations of \<open>perform\<close>, an entry
  with a writer has no readers, and every operation keeps it so: among them
  \<^verbatim>\<open>AddTransactionToEntry\<close>, \<^verbatim>\<open>DoneWithEntry\<close>, \<^verbatim>\<open>ConvertWriterToReader\<close> and the
  queue-drain task. The callbacks of the transactions and of the users run inside the
  operations; they reach the cache through its operations only, which is the hypothesis
  that they keep the invariant.
\<close>

theorem writer_excludes_readers:
  assumes "callbacks_keep invariant_A env"
  shows "(\<forall>c entry e. reachable env c \<and> entries c entry = Some e \<and> writer e \<noteq> None \<longrightarrow>
            readers e = [])
       \<and> (\<forall>operation c c'. invariant_A c \<and> perform env operation c = Some c' \<longrightarrow> invariant_A c')"
proof (intro conjI allI impI)
  fix c entry e
  assume h: "reachable env c \<and> entries c entry = Some e \<and> writer e \<noteq> None"
  with reachable_invariant_A [OF assms, of c] have "invariant_A c" by simp
  from invariant_A_entry [OF this, of entry e] h show "readers e = []" by simp
next
  fix operation c c'
  assume "invariant_A c \<and> perform env operation c = Some c'"
  then show "invariant_A c'" using perform_invariant_A [OF _ _ assms] by blast
qed

lemma example_steps_result:
  "\<exists>c. perform_all example_env example_steps (HttpCache_new (Some 1)) = Some c
       \<and> entries c 2 = Some ((ActiveEntry_new 7)\<lparr>writer := Some 3\<rparr>)"
  by (simp add: example_steps_def example_env_def HttpCache_new_def CreateTransaction_def
      CreateBackend_def GetPendingOp_def FindActiveEntry_def Let_def PendingOp_new_def
      WorkItem_backend_def WorkItem_entry_def store_op_def BackendCallback_Run_def
      OnIOComplete_def OnBackendCreated_def DeletePendingOp_def DoCallback_def
      NotifyTransaction_def OpenEntry_def OnIOComplete_prepare_def IsValid_def ActivateEntry_def
      ActiveEntry_new_def AddTransactionToEntry_def store_entry_def assign_key_def erase_key_def)

theorem writer_excludes_readers_witness:
  "\<exists>c e. perform_all example_env example_steps (HttpCache_new (Some 1)) = Some c
       \<and> reachable example_env c \<and> entries c 2 = Some e \<and> writer e = Some 3 \<and> readers e = []"
proof -
  have k: "callbacks_keep invariant_A example_env"
    by (simp add: callbacks_keep_def example_env_def)
  from example_steps_result obtain c where
    c: "perform_all example_env example_steps (HttpCache_new (Some 1)) = Some c"
    and e: "entries c 2 = Some ((ActiveEntry_new 7)\<lparr>writer := Some 3\<rparr>)" by blast
  have r: "reachable example_env c"
    using reachable.constructed c by (rule reachable_perform_all)
  from writer_excludes_readers [OF k] r e
  have "readers ((ActiveEntry_new 7)\<lparr>writer := Some 3\<rparr>) = []" by fastforce
  with c r e show ?thesis by simp
qed

end
